theory Spec2Isabelle
  imports
    Main
    "HOL-Library.Sublist"
    "HOL-Library.Char_ord"
    "HOL-Library.List_Lexorder"
    "HOL-Library.Multiset"
    "HOL-Library.AList"
begin

section \<open>Strings\<close>

text \<open>
  A Go string is a sequence of bytes; \<^typ>\<open>string\<close> is a list of 8-bit characters.
  \<open>sort.Strings\<close> orders strings bytewise, which is the lexicographic order on
  \<^typ>\<open>char list\<close> with characters ordered by their code.
\<close>

text \<open>
  The UTF-8 encodings of the code points for which Go's \<open>unicode.IsSpace\<close> holds:
  the six ASCII blanks, U+0085, U+00A0, U+1680, U+2000 to U+200A, U+2028, U+2029, U+202F,
  U+205F and U+3000.
\<close>

definition spaceRunes :: "string list" where
  "spaceRunes =
    [[CHR 0x09], [CHR 0x0A], [CHR 0x0B], [CHR 0x0C], [CHR 0x0D], [CHR 0x20],
     [CHR 0xC2, CHR 0x85], [CHR 0xC2, CHR 0xA0],
     [CHR 0xE1, CHR 0x9A, CHR 0x80],
     [CHR 0xE2, CHR 0x80, CHR 0x80], [CHR 0xE2, CHR 0x80, CHR 0x81],
     [CHR 0xE2, CHR 0x80, CHR 0x82], [CHR 0xE2, CHR 0x80, CHR 0x83],
     [CHR 0xE2, CHR 0x80, CHR 0x84], [CHR 0xE2, CHR 0x80, CHR 0x85],
     [CHR 0xE2, CHR 0x80, CHR 0x86], [CHR 0xE2, CHR 0x80, CHR 0x87],
     [CHR 0xE2, CHR 0x80, CHR 0x88], [CHR 0xE2, CHR 0x80, CHR 0x89],
     [CHR 0xE2, CHR 0x80, CHR 0x8A],
     [CHR 0xE2, CHR 0x80, CHR 0xA8], [CHR 0xE2, CHR 0x80, CHR 0xA9],
     [CHR 0xE2, CHR 0x80, CHR 0xAF],
     [CHR 0xE2, CHR 0x81, CHR 0x9F],
     [CHR 0xE3, CHR 0x80, CHR 0x80]]"

text \<open>One leading, respectively trailing, white-space rune removed, if there is one.\<close>

definition stripLeadingSpace :: "string \<Rightarrow> string option" where
  "stripLeadingSpace s =
     map_option (\<lambda>p. drop (length p) s) (find (\<lambda>p. prefix p s) spaceRunes)"

definition stripTrailingSpace :: "string \<Rightarrow> string option" where
  "stripTrailingSpace s =
     map_option (\<lambda>p. take (length s - length p) s) (find (\<lambda>p. suffix p s) spaceRunes)"

lemma spaceRunes_nonempty: "p \<in> set spaceRunes \<Longrightarrow> p \<noteq> []"
  by (auto simp: spaceRunes_def)

lemma stripLeadingSpace_length:
  assumes "stripLeadingSpace s = Some r"
  shows "length r < length s"
proof -
  from assms obtain p where f: "find (\<lambda>p. prefix p s) spaceRunes = Some p"
    and r: "r = drop (length p) s"
    by (auto simp: stripLeadingSpace_def)
  from f have "p \<in> set spaceRunes" and "prefix p s"
    by (auto simp: find_Some_iff)
  then have "p \<noteq> []" and "length p \<le> length s"
    by (auto simp: spaceRunes_nonempty prefix_length_le)
  with r show ?thesis by (cases p) auto
qed

lemma stripTrailingSpace_length:
  assumes "stripTrailingSpace s = Some r"
  shows "length r < length s"
proof -
  from assms obtain p where f: "find (\<lambda>p. suffix p s) spaceRunes = Some p"
    and r: "r = take (length s - length p) s"
    by (auto simp: stripTrailingSpace_def)
  from f have "p \<in> set spaceRunes" and "suffix p s"
    by (auto simp: find_Some_iff)
  then have "p \<noteq> []" and "length p \<le> length s"
    by (auto simp: spaceRunes_nonempty suffix_length_le)
  with r show ?thesis by (cases p) auto
qed

function trimLeft :: "string \<Rightarrow> string" where
  "trimLeft s = (case stripLeadingSpace s of None \<Rightarrow> s | Some r \<Rightarrow> trimLeft r)"
  by pat_completeness auto
termination
  by (relation "measure length") (auto simp: stripLeadingSpace_length)

function trimRight :: "string \<Rightarrow> string" where
  "trimRight s = (case stripTrailingSpace s of None \<Rightarrow> s | Some r \<Rightarrow> trimRight r)"
  by pat_completeness auto
termination
  by (relation "measure length") (auto simp: stripTrailingSpace_length)

declare trimLeft.simps [simp del] trimRight.simps [simp del]

text \<open>\<open>strings.TrimSpace\<close>: all leading and trailing white space removed.\<close>

definition TrimSpace :: "string \<Rightarrow> string" where
  "TrimSpace s = trimRight (trimLeft s)"

text \<open>\<open>strings.Split(s, sep)\<close> and \<open>strings.Join(xs, sep)\<close> for a one-byte separator.\<close>

fun splitOn :: "char \<Rightarrow> string \<Rightarrow> string list" where
  "splitOn sep [] = [[]]"
| "splitOn sep (c # cs) =
     (if c = sep then [] # splitOn sep cs
      else (case splitOn sep cs of [] \<Rightarrow> [[c]] | l # ls \<Rightarrow> (c # l) # ls))"

fun joinWith :: "char \<Rightarrow> string list \<Rightarrow> string" where
  "joinWith sep [] = []"
| "joinWith sep [x] = x"
| "joinWith sep (x # y # ys) = x @ sep # joinWith sep (y # ys)"

text \<open>\<open>strings.HasPrefix\<close> is \<^const>\<open>prefix\<close>; \<open>strings.TrimPrefix\<close>:\<close>

definition TrimPrefix :: "string \<Rightarrow> string \<Rightarrow> string" where
  "TrimPrefix s p = (if prefix p s then drop (length p) s else s)"

section \<open>Decoded JSON and schema values\<close>

text \<open>
  A decoded JSON value (Go's \<open>any\<close> after \<open>encoding/json\<close>). An object, a Go
  \<open>map[string]any\<close>, is an association list read with \<^const>\<open>map_of\<close>; its key set is
  the set of first components. Numbers are opaque to every function below.
\<close>

datatype json =
    JNull
  | JBool bool
  | JNum int
  | JStr string
  | JArr "json list"
  | JObj "(string \<times> json) list"

type_synonym jobject = "(string \<times> json) list"

text \<open>\<open>object[key]\<close> without the comma-ok form: the zero value \<open>nil\<close> when absent.\<close>

definition jget :: "jobject \<Rightarrow> string \<Rightarrow> json" where
  "jget object key = (case map_of object key of None \<Rightarrow> JNull | Some v \<Rightarrow> v)"

text \<open>
  \<open>schemaValue\<close>: a boolean schema (\<open>Bool\<close> non-nil), an object schema (\<open>Object\<close>
  non-nil), or the zero value.
\<close>

record schemaValue =
  Bool :: "bool option"
  Object :: "jobject option"

definition zeroSchemaValue :: schemaValue where
  "zeroSchemaValue = \<lparr>Bool = None, Object = None\<rparr>"

definition objectSchema :: "jobject \<Rightarrow> schemaValue" where
  "objectSchema object = \<lparr>Bool = None, Object = Some object\<rparr>"

type_synonym schemaMap = "(string \<times> schemaValue) list"

text \<open>
  Modelled from the spec: \<open>toSchemaValue\<close> is not among the sources. Section 4.1:
  ``given an arbitrary decoded JSON value, classify it as boolean-schema, object-schema, or
  invalid''. The second component is the \<open>ok\<close> flag.
\<close>

fun toSchemaValue :: "json \<Rightarrow> schemaValue \<times> bool" where
  "toSchemaValue (JBool b) = (\<lparr>Bool = Some b, Object = None\<rparr>, True)"
| "toSchemaValue (JObj object) = (\<lparr>Bool = None, Object = Some object\<rparr>, True)"
| "toSchemaValue _ = (\<lparr>Bool = None, Object = None\<rparr>, False)"

text \<open>
  Modelled from the spec: \<open>asString\<close>, \<open>asSlice\<close>, \<open>asStringSlice\<close> and
  \<open>mapSchemaValues\<close> are not among the sources. They are the typed reads of section 4.1:
  a string or the empty string, a sequence or the empty sequence, the ``ordered list of
  strings'' of \<open>required\<close>, and the ``name \<rightarrow> SchemaValue'' mapping of
  \<open>properties\<close>, whose invalid entries are skipped.
\<close>

fun asString :: "json \<Rightarrow> string" where
  "asString (JStr s) = s"
| "asString _ = []"

fun asSlice :: "json \<Rightarrow> json list" where
  "asSlice (JArr xs) = xs"
| "asSlice _ = []"

fun stringItems :: "json list \<Rightarrow> string list" where
  "stringItems [] = []"
| "stringItems (JStr s # xs) = s # stringItems xs"
| "stringItems (_ # xs) = stringItems xs"

definition asStringSlice :: "json \<Rightarrow> string list" where
  "asStringSlice v = stringItems (asSlice v)"

fun schemaEntries :: "jobject \<Rightarrow> schemaMap" where
  "schemaEntries [] = []"
| "schemaEntries ((k, v) # kvs) =
     (case toSchemaValue v of
        (s, True) \<Rightarrow> (k, s) # schemaEntries kvs
      | (s, False) \<Rightarrow> schemaEntries kvs)"

fun mapSchemaValues :: "json \<Rightarrow> schemaMap" where
  "mapSchemaValues (JObj object) = schemaEntries (AList.clearjunk object)"
| "mapSchemaValues _ = []"

text \<open>The keys of a Go map, each once (the order of \<open>range\<close> is unspecified).\<close>

definition mapKeys :: "(string \<times> 'v) list \<Rightarrow> string list" where
  "mapKeys m = remdups (map fst m)"

section \<open>Deterministic ordering\<close>

text \<open>
  The first loop of \<open>propertyOrder\<close>: \<open>out\<close> and \<open>seen\<close> after the required names.
\<close>

fun requiredLoop ::
  "(string \<times> 'v) list \<Rightarrow> string list \<Rightarrow> string list \<times> string set \<Rightarrow> string list \<times> string set"
where
  "requiredLoop properties [] (out, seen) = (out, seen)"
| "requiredLoop properties (name # required) (out, seen) =
     (if map_of properties name = None then requiredLoop properties required (out, seen)
      else if name \<in> seen then requiredLoop properties required (out, seen)
      else requiredLoop properties required (out @ [name], insert name seen))"

text \<open>
  \<open>propertyOrder\<close>: the optional names are collected by ranging over the map and then
  sorted, so the unspecified iteration order does not show.
\<close>

definition propertyOrder :: "string list \<Rightarrow> (string \<times> 'v) list \<Rightarrow> string list" where
  "propertyOrder required properties =
     (if properties = [] then []
      else case requiredLoop properties required ([], {}) of
        (out, seen) \<Rightarrow> out @ sort (filter (\<lambda>name. name \<notin> seen) (mapKeys properties)))"

text \<open>
  The words of the specification: a list with its duplicates removed, every element
  staying where it first occurs.
\<close>

fun firstOccurrences :: "'a list \<Rightarrow> 'a list" where
  "firstOccurrences [] = []"
| "firstOccurrences (x # xs) = x # firstOccurrences (removeAll x xs)"

definition spec_propertyOrder :: "string list \<Rightarrow> (string \<times> 'v) list \<Rightarrow> string list" where
  "spec_propertyOrder R P =
     firstOccurrences (filter (\<lambda>n. n \<in> fst ` set P) R)
       @ sorted_list_of_set (fst ` set P - set R)"

section \<open>Properties of the string functions\<close>

lemma trimLeft_noLead: "stripLeadingSpace (trimLeft s) = None"
  by (induction s rule: trimLeft.induct) (simp add: trimLeft.simps split: option.splits)

lemma trimRight_noTrail: "stripTrailingSpace (trimRight s) = None"
  by (induction s rule: trimRight.induct) (simp add: trimRight.simps split: option.splits)

lemma trimLeft_fix: "stripLeadingSpace s = None \<Longrightarrow> trimLeft s = s"
  by (simp add: trimLeft.simps)

lemma trimRight_fix: "stripTrailingSpace s = None \<Longrightarrow> trimRight s = s"
  by (simp add: trimRight.simps)

lemma stripTrailingSpace_prefix:
  "stripTrailingSpace s = Some r \<Longrightarrow> prefix r s"
  by (auto simp: stripTrailingSpace_def take_is_prefix)

lemma trimRight_prefix: "prefix (trimRight s) s"
proof (induction s rule: trimRight.induct)
  case (1 s)
  show ?case
  proof (cases "stripTrailingSpace s")
    case None
    then show ?thesis by (simp add: trimRight.simps)
  next
    case (Some r)
    with 1 have "prefix (trimRight r) r" by simp
    moreover from Some have "prefix r s" by (rule stripTrailingSpace_prefix)
    ultimately have "prefix (trimRight r) s" by (rule prefix_order.trans)
    with Some show ?thesis by (simp add: trimRight.simps)
  qed
qed

lemma stripLeadingSpace_None_prefix:
  assumes "stripLeadingSpace s = None" and "prefix r s"
  shows "stripLeadingSpace r = None"
proof -
  from assms(1) have "\<forall>p \<in> set spaceRunes. \<not> prefix p s"
    by (auto simp: stripLeadingSpace_def find_None_iff)
  with assms(2) have "\<forall>p \<in> set spaceRunes. \<not> prefix p r"
    using prefix_order.trans by blast
  then show ?thesis
    by (simp add: stripLeadingSpace_def find_None_iff)
qed

lemma TrimSpace_noLead: "stripLeadingSpace (TrimSpace s) = None"
  unfolding TrimSpace_def
  by (rule stripLeadingSpace_None_prefix [OF trimLeft_noLead trimRight_prefix])

lemma TrimSpace_noTrail: "stripTrailingSpace (TrimSpace s) = None"
  unfolding TrimSpace_def by (rule trimRight_noTrail)

lemma TrimSpace_idem: "TrimSpace (TrimSpace s) = TrimSpace s"
proof -
  have "trimLeft (TrimSpace s) = TrimSpace s"
    by (rule trimLeft_fix [OF TrimSpace_noLead])
  moreover have "trimRight (TrimSpace s) = TrimSpace s"
    by (rule trimRight_fix [OF TrimSpace_noTrail])
  ultimately show ?thesis
    by (simp add: TrimSpace_def [of "TrimSpace s"])
qed

lemma TrimSpace_Nil: "TrimSpace [] = []"
  by (simp add: TrimSpace_def trimLeft.simps trimRight.simps stripLeadingSpace_def
      stripTrailingSpace_def spaceRunes_def)

section \<open>Property order\<close>

lemma firstOccurrences_set: "set (firstOccurrences xs) = set xs"
  by (induction xs rule: firstOccurrences.induct) auto

lemma firstOccurrences_distinct: "distinct (firstOccurrences xs)"
  by (induction xs rule: firstOccurrences.induct) (auto simp: firstOccurrences_set)

lemma requiredLoop_spec:
  "requiredLoop P R (out, seen) =
     (out @ firstOccurrences (filter (\<lambda>n. n \<in> fst ` set P \<and> n \<notin> seen) R),
      seen \<union> (set R \<inter> fst ` set P))"
proof (induction R arbitrary: out seen)
  case Nil
  show ?case by simp
next
  case (Cons name R)
  have dom: "map_of P name = None \<longleftrightarrow> name \<notin> fst ` set P"
    by (simp add: map_of_eq_None_iff)
  have rm: "removeAll name (filter (\<lambda>n. n \<in> fst ` set P \<and> n \<notin> seen) R)
      = filter (\<lambda>n. n \<in> fst ` set P \<and> n \<notin> insert name seen) R"
    by (induction R) auto
  show ?case
    using Cons.IH [of out seen] Cons.IH [of "out @ [name]" "insert name seen"]
    by (auto simp: dom rm)
qed

text \<open>
  C7. For every required list \<open>R\<close> and property map \<open>P\<close>, \<open>propertyOrder R P\<close> is the
  names of \<open>R\<close> that are keys of \<open>P\<close>, in the order of \<open>R\<close> with duplicates removed,
  followed by the keys of \<open>P\<close> that are not in \<open>R\<close>, sorted lexicographically.
\<close>

theorem propertyOrder_required_then_sorted:
  "propertyOrder R P = spec_propertyOrder R P"
proof (cases "P = []")
  case True
  then show ?thesis
    by (simp add: propertyOrder_def spec_propertyOrder_def)
next
  case False
  have keys: "set (filter (\<lambda>name. name \<notin> set R \<inter> fst ` set P) (mapKeys P)) = fst ` set P - set R"
    by (auto simp: mapKeys_def)
  have dist: "distinct (filter (\<lambda>name. name \<notin> set R \<inter> fst ` set P) (mapKeys P))"
    by (simp add: mapKeys_def)
  have "sort (filter (\<lambda>name. name \<notin> set R \<inter> fst ` set P) (mapKeys P))
      = sorted_list_of_set (fst ` set P - set R)"
    using keys dist by (metis sorted_list_of_set_sort_remdups distinct_remdups_id)
  with False show ?thesis
    by (simp add: propertyOrder_def spec_propertyOrder_def requiredLoop_spec)
qed

theorem propertyOrder_required_then_sorted_witness:
  "propertyOrder [''b'', ''zz'', ''a'', ''b'']
     [(''d'', ()), (''c'', ()), (''b'', ()), (''a'', ())] = [''b'', ''a'', ''c'', ''d'']
   \<and> spec_propertyOrder [''b'', ''zz'', ''a'', ''b'']
     [(''d'', ()), (''c'', ()), (''b'', ()), (''a'', ())] = [''b'', ''a'', ''c'', ''d'']"
proof -
  have "spec_propertyOrder [''b'', ''zz'', ''a'', ''b'']
     [(''d'', ()), (''c'', ()), (''b'', ()), (''a'', ())] = [''b'', ''a'', ''c'', ''d'']"
    unfolding spec_propertyOrder_def by code_simp
  then show ?thesis
    using propertyOrder_required_then_sorted
      [of "[''b'', ''zz'', ''a'', ''b'']" "[(''d'', ()), (''c'', ()), (''b'', ()), (''a'', ())]"]
    by simp
qed

section \<open>Definition order\<close>

text \<open>
  \<open>rootDefinitionName\<close>: the definition name of a local pointer \<open>#/$defs/NAME...\<close>
  or \<open>#/definitions/NAME...\<close>, the empty string for any other reference.
\<close>

fun rootDefinitionNameLoop :: "string \<Rightarrow> string list \<Rightarrow> string" where
  "rootDefinitionNameLoop ref [] = []"
| "rootDefinitionNameLoop ref (p # ps) =
     (if \<not> prefix p ref then rootDefinitionNameLoop ref ps
      else let path = TrimPrefix ref p in
        if path = [] then []
        else (case splitOn CHR ''/'' path of [] \<Rightarrow> [] | part # _ \<Rightarrow> part))"

definition rootDefinitionName :: "string \<Rightarrow> string" where
  "rootDefinitionName ref0 =
     (let ref = TrimSpace ref0 in
      if ref = [] then []
      else rootDefinitionNameLoop ref [''#/$defs/'', ''#/definitions/''])"

text \<open>\<open>definitionOrder\<close>: the sorted definition names with the root moved to the front.\<close>

definition definitionOrder :: "(string \<times> 'v) list \<Rightarrow> string \<Rightarrow> string list" where
  "definitionOrder defs rootName =
     (let keys = sort (mapKeys defs) in
      case keys of [] \<Rightarrow> []
      | first # _ \<Rightarrow>
        let root0 = TrimSpace rootName;
            root = (if root0 = []
                    then (if map_of defs ''Config'' \<noteq> None then ''Config'' else first)
                    else root0)
        in if map_of defs root = None then keys
           else root # filter (\<lambda>name. name \<noteq> root) keys)"

text \<open>
  The words of the specification: the root is the definition named by the root reference if
  present, else \<open>Config\<close> if present, else the lexicographically first name; the other
  names follow in lexicographic order.
\<close>

definition spec_rootDefinition :: "(string \<times> 'v) list \<Rightarrow> string \<Rightarrow> string" where
  "spec_rootDefinition defs ref =
     (if rootDefinitionName ref \<in> fst ` set defs then rootDefinitionName ref
      else if ''Config'' \<in> fst ` set defs then ''Config''
      else Min (fst ` set defs))"

definition spec_definitionOrder :: "(string \<times> 'v) list \<Rightarrow> string \<Rightarrow> string list" where
  "spec_definitionOrder defs ref =
     (let r = spec_rootDefinition defs ref
      in r # sorted_list_of_set (fst ` set defs - {r}))"

lemma sort_mapKeys: "sort (mapKeys m) = sorted_list_of_set (fst ` set m)"
  by (simp add: mapKeys_def flip: sorted_list_of_set_sort_remdups)

lemma filter_neq_sorted_list_of_set:
  assumes "finite K"
  shows "filter (\<lambda>name. name \<noteq> r) (sorted_list_of_set K) = sorted_list_of_set (K - {r})"
proof -
  have "filter (\<lambda>name. name \<noteq> r) xs = removeAll r xs" for xs
    by (induction xs) auto
  then have "filter (\<lambda>name. name \<noteq> r) (sorted_list_of_set K) = removeAll r (sorted_list_of_set K)" .
  also have "\<dots> = remove1 r (sorted_list_of_set K)"
    by (simp add: distinct_remove1_removeAll)
  also have "\<dots> = sorted_list_of_set (K - {r})"
    using assms by (simp add: sorted_list_of_set_remove)
  finally show ?thesis .
qed

text \<open>
  C8, as amended. For a non-empty definitions map: when the name extracted from the root
  reference (trimmed) is empty, the order starts with \<open>Config\<close> if that is a
  definition and with the lexicographically first name otherwise; when the name is a
  definition, the order starts with it; in both cases the other names follow in
  lexicographic order. When the name is not empty and not a definition, the order is all
  names in lexicographic order and no root is moved to the front.
\<close>

theorem definitionOrder_root_first:
  assumes "defs \<noteq> []"
  shows "definitionOrder defs (rootDefinitionName ref) =
     (let n = TrimSpace (rootDefinitionName ref); K = fst ` set defs in
      if n = []
      then (let r = (if ''Config'' \<in> K then ''Config'' else Min K)
            in r # sorted_list_of_set (K - {r}))
      else if n \<in> K then n # sorted_list_of_set (K - {n})
      else sorted_list_of_set K)"
proof -
  let ?K = "fst ` set defs"
  let ?n = "TrimSpace (rootDefinitionName ref)"
  have fin: "finite ?K" by simp
  from assms have ne: "?K \<noteq> {}" by simp
  have ks: "sort (mapKeys defs) = Min ?K # sorted_list_of_set (?K - {Min ?K})"
    using sorted_list_of_set_nonempty [OF fin ne] by (simp add: sort_mapKeys)
  have minK: "Min ?K \<in> ?K" using fin ne by (rule Min_in)
  have dom: "map_of defs k = None \<longleftrightarrow> k \<notin> ?K" for k
    by (simp add: map_of_eq_None_iff)
  have flt: "r # filter (\<lambda>name. name \<noteq> r) (sort (mapKeys defs)) = r # sorted_list_of_set (?K - {r})" for r
    by (simp add: sort_mapKeys filter_neq_sorted_list_of_set [OF fin])
  define root where "root = (if ?n = [] then (if map_of defs ''Config'' \<noteq> None then ''Config'' else Min ?K) else ?n)"
  have unfold: "definitionOrder defs (rootDefinitionName ref) =
      (if map_of defs root = None then sort (mapKeys defs)
       else root # filter (\<lambda>name. name \<noteq> root) (sort (mapKeys defs)))"
    unfolding definitionOrder_def root_def Let_def by (simp only: ks list.case)
  show ?thesis
  proof (cases "?n = []")
    case True
    then have r: "root = (if ''Config'' \<in> ?K then ''Config'' else Min ?K)"
      by (simp add: root_def dom)
    then have "root \<in> ?K" using minK by (simp split: if_splits)
    then have "map_of defs root \<noteq> None" by (simp add: dom)
    then have "definitionOrder defs (rootDefinitionName ref) = root # sorted_list_of_set (?K - {root})"
      by (simp only: unfold flt if_False)
    with True r show ?thesis by (simp add: Let_def)
  next
    case False
    then have r: "root = ?n" by (simp add: root_def)
    show ?thesis
    proof (cases "?n \<in> ?K")
      case True
      then have "map_of defs root \<noteq> None" by (simp add: dom r)
      then have "definitionOrder defs (rootDefinitionName ref) = root # sorted_list_of_set (?K - {root})"
        by (simp only: unfold flt if_False)
      with True False r show ?thesis by (simp add: Let_def)
    next
      case nin: False
      then have "map_of defs root = None" by (simp add: dom r)
      then have "definitionOrder defs (rootDefinitionName ref) = sorted_list_of_set ?K"
        by (simp add: unfold sort_mapKeys)
      with nin False show ?thesis by (simp add: Let_def)
    qed
  qed
qed

theorem definitionOrder_root_first_witness:
  "definitionOrder [(''Zulu'', ()), (''Config'', ()), (''Alpha'', ())] (rootDefinitionName ''#/$defs/Zulu'')
     = [''Zulu'', ''Alpha'', ''Config'']"
proof -
  have n: "TrimSpace (rootDefinitionName ''#/$defs/Zulu'') = ''Zulu''" by code_simp
  have s: "sorted_list_of_set (fst ` set [(''Zulu'', ()), (''Config'', ()), (''Alpha'', ())] - {''Zulu''})
      = [''Alpha'', ''Config'']" by code_simp
  have ne: "[(''Zulu'', ()), (''Config'', ()), (''Alpha'', ())] \<noteq> []" by simp
  show ?thesis
    using definitionOrder_root_first [OF ne, of "''#/$defs/Zulu''"]
    unfolding n Let_def s by simp
qed

text \<open>
  C8 as stated fails where the root reference names a definition that does not exist:
  \<open>Config\<close> is present and is not placed first.
\<close>

theorem definitionOrder_counterexample:
  "definitionOrder [(''Alpha'', ()), (''Config'', ())] (rootDefinitionName ''#/$defs/Missing'')
     = [''Alpha'', ''Config'']
   \<and> spec_definitionOrder [(''Alpha'', ()), (''Config'', ())] ''#/$defs/Missing''
     = [''Config'', ''Alpha'']"
  by code_simp

section \<open>Local reference resolver\<close>

text \<open>\<open>strings.ReplaceAll\<close> for a two-byte pattern \<open>[a, b]\<close>, scanning left to right.\<close>

fun replaceAll2 :: "char \<Rightarrow> char \<Rightarrow> string \<Rightarrow> string \<Rightarrow> string" where
  "replaceAll2 a b new (x # y # s) =
     (if x = a \<and> y = b then new @ replaceAll2 a b new s
      else x # replaceAll2 a b new (y # s))"
| "replaceAll2 a b new s = s"

text \<open>\<open>decodeJSONPointerToken\<close>: \<open>~1\<close> to \<open>/\<close> first, then \<open>~0\<close> to \<open>~\<close>.\<close>

definition decodeJSONPointerToken :: "string \<Rightarrow> string" where
  "decodeJSONPointerToken token =
     replaceAll2 CHR ''~'' CHR ''0'' ''~'' (replaceAll2 CHR ''~'' CHR ''1'' ''/'' token)"

text \<open>
  \<open>strconv.Atoi\<close> on a 64-bit platform: an optional sign, then at least one decimal
  digit and nothing else; \<open>None\<close> is the error (syntax, or out of the range of \<open>int\<close>).
\<close>

definition isDigit :: "char \<Rightarrow> bool" where
  "isDigit c \<longleftrightarrow> CHR ''0'' \<le> c \<and> c \<le> CHR ''9''"

definition digitsValue :: "string \<Rightarrow> int" where
  "digitsValue ds = fold (\<lambda>c n. n * 10 + (int (of_char c) - 48)) ds 0"

definition Atoi :: "string \<Rightarrow> int option" where
  "Atoi s =
     (let neg = (case s of c # _ \<Rightarrow> c = CHR ''-'' | [] \<Rightarrow> False);
          ds = (case s of c # r \<Rightarrow> if c = CHR ''-'' \<or> c = CHR ''+'' then r else s | [] \<Rightarrow> s)
      in if ds = [] \<or> \<not> list_all isDigit ds then None
         else let n = (if neg then - digitsValue ds else digitsValue ds)
              in if n < - (2 ^ 63) \<or> 2 ^ 63 \<le> n then None else Some n)"

text \<open>
  The loop of \<open>resolveJSONPointer\<close> over the pointer's tokens; \<open>None\<close> is the result
  \<open>(nil, false)\<close>.
\<close>

fun resolveTokens :: "json \<Rightarrow> string list \<Rightarrow> json option" where
  "resolveTokens current [] = Some current"
| "resolveTokens current (token0 # tokens) =
     (let token = decodeJSONPointerToken token0 in
      case current of
        JObj typed \<Rightarrow>
          (case map_of typed token of
             None \<Rightarrow> None
           | Some next \<Rightarrow> resolveTokens next tokens)
      | JArr typed \<Rightarrow>
          (case Atoi token of
             None \<Rightarrow> None
           | Some index \<Rightarrow>
               if index < 0 \<or> int (length typed) \<le> index then None
               else resolveTokens (typed ! nat index) tokens)
      | _ \<Rightarrow> None)"

definition resolveJSONPointer :: "json \<Rightarrow> string \<Rightarrow> json option" where
  "resolveJSONPointer root ref0 =
     (let ref = TrimSpace ref0 in
      if ref = ''#'' then Some root
      else if \<not> prefix ''#/'' ref then None
      else resolveTokens root (splitOn CHR ''/'' (TrimPrefix ref ''#/'')))"


text \<open>
  C9, as amended. \<open>resolveJSONPointer\<close> trims the reference first; for every reference
  whose trimmed form is neither exactly \<open>#\<close> nor prefixed by \<open>#/\<close> it reports not
  found, whatever the document. Anchor-style references such as \<open>#name\<close> are among them.
\<close>

theorem resolveJSONPointer_not_local:
  assumes "TrimSpace ref \<noteq> ''#''" and "\<not> prefix ''#/'' (TrimSpace ref)"
  shows "resolveJSONPointer root ref = None"
  using assms by (simp add: resolveJSONPointer_def Let_def)

theorem resolveJSONPointer_not_local_witness:
  "resolveJSONPointer (JObj [(''name'', JBool True)]) ''#name'' = None"
proof -
  have t: "TrimSpace ''#name'' = ''#name''" by code_simp
  show ?thesis
    by (rule resolveJSONPointer_not_local) (simp_all add: t)
qed

text \<open>
  C9 as stated fails for a reference with surrounding white space: \<open>'' #''\<close> is neither
  exactly \<open>#\<close> nor prefixed by \<open>#/\<close>, and it resolves to the whole document.
\<close>

theorem resolveJSONPointer_counterexample:
  "'' #'' \<noteq> ''#'' \<and> \<not> prefix ''#/'' '' #''
   \<and> resolveJSONPointer (JObj [(''name'', JBool True)]) '' #'' = Some (JObj [(''name'', JBool True)])"
  by code_simp

section \<open>Annotation comments\<close>

text \<open>A line that is empty after \<open>strings.TrimSpace\<close>.\<close>

definition blankLine :: "string \<Rightarrow> bool" where
  "blankLine l \<longleftrightarrow> TrimSpace l = []"

text \<open>The two index loops of \<open>normalizeYAMLComment\<close>.\<close>

function startLoop :: "string list \<Rightarrow> nat \<Rightarrow> nat" where
  "startLoop lines start =
     (if start < length lines \<and> blankLine (lines ! start) then startLoop lines (Suc start)
      else start)"
  by pat_completeness auto
termination
  by (relation "measure (\<lambda>(lines, start). length lines - start)") auto

fun endLoop :: "string list \<Rightarrow> nat \<Rightarrow> nat \<Rightarrow> nat" where
  "endLoop lines start 0 = 0"
| "endLoop lines start (Suc e) =
     (if start < Suc e \<and> blankLine (lines ! e) then endLoop lines start e else Suc e)"

declare startLoop.simps [simp del]

definition normalizeYAMLComment :: "string \<Rightarrow> string" where
  "normalizeYAMLComment comment =
     (let lines = splitOn CHR 0x0A comment;
          start = startLoop lines 0;
          end = endLoop lines start (length lines)
      in if end \<le> start then []
         else let normalized = filter (\<lambda>line. \<not> blankLine line) (take (end - start) (drop start lines))
              in if normalized = [] then [] else joinWith CHR 0x0A normalized)"

definition schemaKeyComment :: "schemaValue \<Rightarrow> string" where
  "schemaKeyComment schema =
     (case Object schema of
        None \<Rightarrow> []
      | Some object \<Rightarrow>
          let title = TrimSpace (asString (jget object ''title''));
              description = TrimSpace (asString (jget object ''description''))
          in if title = [] \<and> description = [] then []
             else if title = [] then normalizeYAMLComment description
             else if description = [] then normalizeYAMLComment title
             else if title = description then normalizeYAMLComment title
             else normalizeYAMLComment (title @ [CHR 0x0A] @ description))"

text \<open>
  The words of the specification: the text built from title and description, then trimmed
  of leading and trailing blank lines and collapsed of fully blank lines.
\<close>

definition spec_normalizeComment :: "string \<Rightarrow> string" where
  "spec_normalizeComment text =
     joinWith CHR 0x0A
       (filter (\<lambda>line. \<not> blankLine line)
          (rev (dropWhile blankLine (rev (dropWhile blankLine (splitOn CHR 0x0A text))))))"

definition spec_rawComment :: "string \<Rightarrow> string \<Rightarrow> string" where
  "spec_rawComment title description =
     (if description = [] then title
      else if title = [] then description
      else if title = description then title
      else title @ [CHR 0x0A, CHR 0x0A] @ description)"

definition spec_keyComment :: "string \<Rightarrow> string \<Rightarrow> string" where
  "spec_keyComment title description = spec_normalizeComment (spec_rawComment title description)"

text \<open>The amended text: title and description joined by one newline.\<close>

definition amended_keyComment :: "string \<Rightarrow> string \<Rightarrow> string" where
  "amended_keyComment title description =
     spec_normalizeComment
       (if description = [] then title
        else if title = [] then description
        else if title = description then title
        else title @ [CHR 0x0A] @ description)"


lemma blankLine_Nil: "blankLine []"
  by (simp add: blankLine_def TrimSpace_Nil)

lemma startLoop_bounds:
  "start \<le> length lines \<Longrightarrow>
     start \<le> startLoop lines start \<and> startLoop lines start \<le> length lines"
proof (induction lines start rule: startLoop.induct)
  case (1 lines start)
  show ?case
  proof (cases "start < length lines \<and> blankLine (lines ! start)")
    case True
    with 1 show ?thesis by (simp add: startLoop.simps [of lines start])
  next
    case False
    with 1(2) show ?thesis by (auto simp add: startLoop.simps [of lines start])
  qed
qed

lemma startLoop_blank:
  "start \<le> i \<Longrightarrow> i < startLoop lines start \<Longrightarrow> blankLine (lines ! i)"
proof (induction lines start rule: startLoop.induct)
  case (1 lines start)
  show ?case
  proof (cases "start < length lines \<and> blankLine (lines ! start)")
    case True
    with 1 show ?thesis
      by (cases "i = start") (auto simp: startLoop.simps [of lines start])
  next
    case False
    with 1 show ?thesis by (simp add: startLoop.simps [of lines start])
  qed
qed

lemma endLoop_le: "endLoop lines start e \<le> e"
  by (induction e) auto

lemma endLoop_ge: "start \<le> e \<Longrightarrow> start \<le> endLoop lines start e"
  by (induction e) auto

lemma endLoop_blank:
  "endLoop lines start e \<le> i \<Longrightarrow> i < e \<Longrightarrow> blankLine (lines ! i)"
proof (induction e)
  case 0
  then show ?case by simp
next
  case (Suc e)
  then show ?case
    by (cases "i = e") (auto split: if_splits)
qed

lemma filter_all_blank:
  assumes "\<forall>l \<in> set ls. blankLine l"
  shows "filter (\<lambda>line. \<not> blankLine line) ls = []"
  using assms by (induction ls) auto

lemma filter_slice:
  assumes s: "s \<le> e" and e: "e \<le> length ls"
    and lead: "\<forall>i < s. blankLine (ls ! i)"
    and trail: "\<forall>i. e \<le> i \<and> i < length ls \<longrightarrow> blankLine (ls ! i)"
  shows "filter (\<lambda>line. \<not> blankLine line) (take (e - s) (drop s ls))
       = filter (\<lambda>line. \<not> blankLine line) ls"
proof -
  have split: "ls = take s ls @ take (e - s) (drop s ls) @ drop e ls"
    using s e by (metis append_take_drop_id drop_drop le_add_diff_inverse2)
  have a: "\<forall>l \<in> set (take s ls). blankLine l"
    using lead s e by (auto simp: in_set_conv_nth)
  have b: "\<forall>l \<in> set (drop e ls). blankLine l"
    using trail by (auto simp: in_set_conv_nth)
  have "filter (\<lambda>line. \<not> blankLine line) ls
      = filter (\<lambda>line. \<not> blankLine line) (take s ls)
        @ filter (\<lambda>line. \<not> blankLine line) (take (e - s) (drop s ls))
        @ filter (\<lambda>line. \<not> blankLine line) (drop e ls)"
    by (subst split) (simp only: filter_append)
  then show ?thesis
    by (simp add: filter_all_blank [OF a] filter_all_blank [OF b])
qed

lemma normalizeYAMLComment_nonblank_lines:
  "normalizeYAMLComment comment =
     joinWith CHR 0x0A (filter (\<lambda>line. \<not> blankLine line) (splitOn CHR 0x0A comment))"
proof -
  let ?ls = "splitOn CHR 0x0A comment"
  let ?s = "startLoop ?ls 0"
  let ?e = "endLoop ?ls ?s (length ?ls)"
  have sb: "?s \<le> length ?ls" using startLoop_bounds [of 0 ?ls] by simp
  have lead: "\<forall>i < ?s. blankLine (?ls ! i)" using startLoop_blank [of 0 _ ?ls] by simp
  have trail: "\<forall>i. ?e \<le> i \<and> i < length ?ls \<longrightarrow> blankLine (?ls ! i)"
    using endLoop_blank by blast
  have el: "?e \<le> length ?ls" by (rule endLoop_le)
  have eg: "?s \<le> ?e" using sb by (rule endLoop_ge)
  show ?thesis
  proof (cases "?e \<le> ?s")
    case True
    with eg have eq: "?e = ?s" by simp
    have "\<forall>l \<in> set ?ls. blankLine l"
    proof
      fix l assume "l \<in> set ?ls"
      then obtain i where i: "i < length ?ls" "?ls ! i = l" by (auto simp: in_set_conv_nth)
      show "blankLine l"
      proof (cases "i < ?s")
        case True with lead i show ?thesis by auto
      next
        case False with trail i eq show ?thesis by auto
      qed
    qed
    then have "filter (\<lambda>line. \<not> blankLine line) ?ls = []" by (rule filter_all_blank)
    with True show ?thesis by (simp add: normalizeYAMLComment_def Let_def)
  next
    case False
    have "filter (\<lambda>line. \<not> blankLine line) (take (?e - ?s) (drop ?s ?ls))
        = filter (\<lambda>line. \<not> blankLine line) ?ls"
      using eg el lead trail by (rule filter_slice)
    with False show ?thesis by (simp add: normalizeYAMLComment_def Let_def)
  qed
qed

lemma filter_dropWhile_blank:
  "filter (\<lambda>line. \<not> blankLine line) (dropWhile blankLine ls)
     = filter (\<lambda>line. \<not> blankLine line) ls"
  by (induction ls) auto

lemma spec_normalizeComment_nonblank_lines:
  "spec_normalizeComment text =
     joinWith CHR 0x0A (filter (\<lambda>line. \<not> blankLine line) (splitOn CHR 0x0A text))"
proof -
  have "filter (\<lambda>line. \<not> blankLine line) (rev (dropWhile blankLine (rev ls)))
      = filter (\<lambda>line. \<not> blankLine line) ls" for ls
    by (metis filter_dropWhile_blank rev_filter rev_rev_ident)
  then show ?thesis
    by (simp add: spec_normalizeComment_def filter_dropWhile_blank)
qed

lemma splitOn_nonempty: "splitOn sep s \<noteq> []"
  by (induction s) (auto split: list.splits)

lemma splitOn_append_sep:
  "splitOn sep (a @ sep # b) = splitOn sep a @ splitOn sep b"
proof (induction a)
  case Nil
  show ?case by simp
next
  case (Cons c a)
  obtain l ls where l: "splitOn sep a = l # ls"
    using splitOn_nonempty [of sep a] by (cases "splitOn sep a") auto
  with Cons show ?case by simp
qed

lemma normalizeYAMLComment_blank_line_between:
  "normalizeYAMLComment (t @ [CHR 0x0A] @ d) = normalizeYAMLComment (t @ [CHR 0x0A, CHR 0x0A] @ d)"
proof -
  have one: "splitOn CHR 0x0A (t @ [CHR 0x0A] @ d) = splitOn CHR 0x0A t @ splitOn CHR 0x0A d"
    using splitOn_append_sep [of "CHR 0x0A" t d] by simp
  have two: "splitOn CHR 0x0A (t @ [CHR 0x0A, CHR 0x0A] @ d)
      = splitOn CHR 0x0A t @ [] # splitOn CHR 0x0A d"
    using splitOn_append_sep [of "CHR 0x0A" t "CHR 0x0A # d"] by simp
  show ?thesis
    unfolding normalizeYAMLComment_nonblank_lines one two
    by (simp add: blankLine_Nil)
qed

lemma splitOn_no_sep: "sep \<notin> set s \<Longrightarrow> splitOn sep s = [s]"
  by (induction s) auto

lemma splitOn_joinWith:
  assumes "\<forall>l \<in> set ls. sep \<notin> set l" and "ls \<noteq> []"
  shows "splitOn sep (joinWith sep ls) = ls"
  using assms
proof (induction sep ls rule: joinWith.induct)
  case (1 sep)
  then show ?case by simp
next
  case (2 sep x)
  then show ?case by (simp add: splitOn_no_sep)
next
  case (3 sep x y ys)
  have "splitOn sep (x @ sep # joinWith sep (y # ys)) = splitOn sep x @ splitOn sep (joinWith sep (y # ys))"
    by (rule splitOn_append_sep)
  with 3 show ?case by (simp add: splitOn_no_sep)
qed

lemma splitOn_no_sep_in_lines: "l \<in> set (splitOn sep s) \<Longrightarrow> sep \<notin> set l"
proof (induction s arbitrary: l)
  case Nil
  then show ?case by simp
next
  case (Cons c s)
  obtain h t where ht: "splitOn sep s = h # t"
    using splitOn_nonempty [of sep s] by (cases "splitOn sep s") auto
  show ?case
  proof (cases "c = sep")
    case True
    with Cons show ?thesis by auto
  next
    case False
    with Cons.prems ht have "l = c # h \<or> l \<in> set t" by simp
    then show ?thesis
      using Cons.IH [of h] Cons.IH [of l] ht False by auto
  qed
qed

lemma joinWith_lines_kept:
  "joinWith sep (filter Q (splitOn sep s)) = []
   \<or> splitOn sep (joinWith sep (filter Q (splitOn sep s))) = filter Q (splitOn sep s)"
proof (cases "filter Q (splitOn sep s) = []")
  case True
  then show ?thesis by simp
next
  case False
  have "\<forall>l \<in> set (filter Q (splitOn sep s)). sep \<notin> set l"
    by (auto dest: splitOn_no_sep_in_lines)
  then have "splitOn sep (joinWith sep (filter Q (splitOn sep s))) = filter Q (splitOn sep s)"
    using False by (rule splitOn_joinWith)
  then show ?thesis by simp
qed

text \<open>
  C5, as amended. For a schema object, title and description are read trimmed of
  surrounding white space, an empty text counting as absent. The comment of the key is the
  title alone when the description is absent, the description alone when the title is
  absent, the shared text when they are equal, and title, newline, description when both
  are present and differ; the text is then trimmed of leading and trailing blank lines
  and collapsed of fully blank lines, so that the comment has no blank line.
\<close>

theorem schemaKeyComment_title_description:
  assumes "Object schema = Some object"
  shows "schemaKeyComment schema =
     amended_keyComment (TrimSpace (asString (jget object ''title'')))
                        (TrimSpace (asString (jget object ''description'')))
   \<and> (schemaKeyComment schema = []
        \<or> (\<forall>line \<in> set (splitOn CHR 0x0A (schemaKeyComment schema)). \<not> blankLine line))"
proof -
  let ?t = "TrimSpace (asString (jget object ''title''))"
  let ?d = "TrimSpace (asString (jget object ''description''))"
  have n: "normalizeYAMLComment x = spec_normalizeComment x" for x
    by (simp add: normalizeYAMLComment_nonblank_lines spec_normalizeComment_nonblank_lines)
  have e: "spec_normalizeComment [] = []"
    by (simp add: spec_normalizeComment_nonblank_lines blankLine_Nil)
  have eq: "schemaKeyComment schema = amended_keyComment ?t ?d"
    using assms by (simp add: schemaKeyComment_def amended_keyComment_def Let_def n e)
  have "spec_normalizeComment x = []
      \<or> (\<forall>line \<in> set (splitOn CHR 0x0A (spec_normalizeComment x)). \<not> blankLine line)" for x
    unfolding spec_normalizeComment_nonblank_lines
    using joinWith_lines_kept [of "CHR 0x0A" "\<lambda>line. \<not> blankLine line" x] by auto
  then show ?thesis
    unfolding eq by (simp add: amended_keyComment_def)
qed

theorem schemaKeyComment_title_description_witness:
  "schemaKeyComment (objectSchema [(''title'', JStr ''Enabled''), (''description'', JStr '' Enables it.'')])
     = ''Enabled'' @ [CHR 0x0A] @ ''Enables it.''"
proof -
  have s: "amended_keyComment (TrimSpace (asString (jget [(''title'', JStr ''Enabled''), (''description'', JStr '' Enables it.'')] ''title'')))
     (TrimSpace (asString (jget [(''title'', JStr ''Enabled''), (''description'', JStr '' Enables it.'')] ''description'')))
     = ''Enabled'' @ [CHR 0x0A] @ ''Enables it.''"
    by code_simp
  have o: "Object (objectSchema [(''title'', JStr ''Enabled''), (''description'', JStr '' Enables it.'')])
     = Some [(''title'', JStr ''Enabled''), (''description'', JStr '' Enables it.'')]"
    by (simp add: objectSchema_def)
  show ?thesis
    using schemaKeyComment_title_description [OF o] s by simp
qed

text \<open>
  C5 as stated fails: for title \<open>T\<close> and description \<open>D\<close> the comment is
  \<open>T\<close>, newline, \<open>D\<close>, without the blank line of \<open>title\n\ndescription\<close>; and a
  title with surrounding white space is attached trimmed, not as it stands.
\<close>

theorem schemaKeyComment_counterexample:
  "schemaKeyComment (objectSchema [(''title'', JStr ''T''), (''description'', JStr ''D'')])
     \<noteq> spec_rawComment ''T'' ''D''
   \<and> schemaKeyComment (objectSchema [(''title'', JStr ''T''), (''description'', JStr ''D'')])
     = [CHR ''T'', CHR 0x0A, CHR ''D'']
   \<and> spec_rawComment ''T'' ''D'' = [CHR ''T'', CHR 0x0A, CHR 0x0A, CHR ''D'']
   \<and> schemaKeyComment (objectSchema [(''title'', JStr '' T'')]) \<noteq> spec_keyComment '' T'' []"
  by code_simp

section \<open>Example value synthesizer\<close>

text \<open>
  \<open>strings.ToLower\<close>. Go lower-cases the ASCII capitals, and two code points outside
  ASCII into ASCII letters: U+0130 into \<open>i\<close> and U+212A into \<open>k\<close>. Every other code
  point outside ASCII is mapped to a code point outside ASCII; those are left as they are,
  since the result is only compared with ASCII keywords.
\<close>

definition lowerASCII :: "char \<Rightarrow> char" where
  "lowerASCII c = (if CHR ''A'' \<le> c \<and> c \<le> CHR ''Z'' then char_of (of_char c + (32::nat)) else c)"

fun ToLower :: "string \<Rightarrow> string" where
  "ToLower [] = []"
| "ToLower (c # cs) =
     (if c = CHR 0xC4 \<and> take 1 cs = [CHR 0xB0] then CHR ''i'' # ToLower (drop 1 cs)
      else if c = CHR 0xE2 \<and> take 2 cs = [CHR 0x84, CHR 0xAA] then CHR ''k'' # ToLower (drop 2 cs)
      else lowerASCII c # ToLower cs)"

text \<open>
  \<open>schemaDocument\<close>, of which the synthesizer reads the root node and the raw decoded
  document. Modelled from the spec: the type is not among the sources; section 3 lists
  the root reference, the definitions mapping, the root schema node and the raw decoded
  document tree.
\<close>

record schemaDocument =
  Ref :: string
  Defs :: schemaMap
  Root :: schemaValue
  RawKeywords :: jobject

type_synonym ExampleMode = string

definition ExampleModeAll :: ExampleMode where "ExampleModeAll = ''all''"
definition ExampleModeRequired :: ExampleMode where "ExampleModeRequired = ''required''"

record exampleBuilder =
  activeRefs :: "string \<rightharpoonup> int"
  mode :: ExampleMode
  doc :: schemaDocument

definition exampleScalarPlaceholders :: "(string \<times> json) list" where
  "exampleScalarPlaceholders =
     [(''string'', JStr ''<string>''), (''number'', JNum 0), (''integer'', JNum 0),
      (''boolean'', JBool False), (''null'', JNull)]"

text \<open>\<open>builder.activeRefs[ref]\<close>: the count, zero for a reference that is not a key.\<close>

definition activeCount :: "exampleBuilder \<Rightarrow> string \<Rightarrow> int" where
  "activeCount b ref = (case activeRefs b ref of None \<Rightarrow> 0 | Some c \<Rightarrow> c)"

text \<open>
  The release callback that \<open>enterReference\<close> returns, as the function of the builder
  it is called on; the callback itself is represented by the reference it captured.
\<close>

definition release :: "string \<Rightarrow> exampleBuilder \<Rightarrow> exampleBuilder" where
  "release ref b =
     (let c = activeCount b ref - 1 in
      if c \<le> 0 then b\<lparr>activeRefs := (activeRefs b)(ref := None)\<rparr>
      else b\<lparr>activeRefs := (activeRefs b)(ref \<mapsto> c)\<rparr>)"

text \<open>\<open>defer release()\<close> when the callback is not nil.\<close>

definition runRelease :: "string option \<Rightarrow> exampleBuilder \<Rightarrow> exampleBuilder" where
  "runRelease rel b = (case rel of None \<Rightarrow> b | Some ref \<Rightarrow> release ref b)"

text \<open>\<open>enterReference\<close>: the callback, the \<open>ok\<close> flag and the builder after the call.\<close>

definition enterReference ::
  "exampleBuilder \<Rightarrow> string \<Rightarrow> (string option \<times> bool) \<times> exampleBuilder" where
  "enterReference b ref0 =
     (let ref = TrimSpace ref0 in
      if ref = [] then ((None, True), b)
      else if 0 < activeCount b ref then ((None, False), b)
      else ((Some ref, True), b\<lparr>activeRefs := (activeRefs b)(ref \<mapsto> activeCount b ref + 1)\<rparr>))"

definition stripReferenceKeyword :: "jobject \<Rightarrow> jobject" where
  "stripReferenceKeyword object = filter (\<lambda>(key, value). key \<noteq> ''$ref'') object"

text \<open>
  \<open>mergeSchemaObjects\<close>: a copy of \<open>base\<close> in which every key of \<open>overlay\<close> but
  \<open>$ref\<close> is assigned the overlay's value.
\<close>

definition mergeSchemaObjects :: "jobject \<Rightarrow> jobject \<Rightarrow> jobject" where
  "mergeSchemaObjects base overlay = AList.merge base (stripReferenceKeyword overlay)"

definition resolveLocalReference :: "exampleBuilder \<Rightarrow> string \<Rightarrow> schemaValue \<times> bool" where
  "resolveLocalReference b ref0 =
     (let ref = TrimSpace ref0 in
      if ref = [] \<or> \<not> prefix ''#'' ref then (zeroSchemaValue, False)
      else if RawKeywords (doc b) = [] then (zeroSchemaValue, False)
      else case resolveJSONPointer (JObj (RawKeywords (doc b))) ref of
             None \<Rightarrow> (zeroSchemaValue, False)
           | Some raw \<Rightarrow> toSchemaValue raw)"

text \<open>
  \<open>resolvedObjectForReference\<close>: the resolved object (\<open>None\<close> is nil), the release
  callback, the \<open>handled\<close> flag, and the builder after the call.
\<close>

definition resolvedObjectForReference ::
  "exampleBuilder \<Rightarrow> jobject \<Rightarrow> (jobject option \<times> string option \<times> bool) \<times> exampleBuilder" where
  "resolvedObjectForReference b object =
     (let ref = asString (jget object ''$ref'') in
      if ref = [] then ((None, None, False), b)
      else
        let stripAndContinue = stripReferenceKeyword object in
        case resolveLocalReference b ref of
          (resolved, ok) \<Rightarrow>
            (case (if ok then Object resolved else None) of
               None \<Rightarrow> ((Some stripAndContinue, None, True), b)
             | Some target \<Rightarrow>
                 (case enterReference b ref of
                    ((rel, ok2), b') \<Rightarrow>
                      if \<not> ok2 then ((None, None, True), b')
                      else ((Some (mergeSchemaObjects target object), rel, True), b'))))"

definition mergePropertySchemas :: "schemaMap \<Rightarrow> schemaMap \<Rightarrow> schemaMap" where
  "mergePropertySchemas left right =
     (if left = [] \<and> right = [] then []
      else if left = [] then right
      else left @ filter (\<lambda>(key, value). map_of left key = None) right)"

text \<open>The loop of \<open>mergeRequiredKeys\<close> over \<open>append(left, right...)\<close>.\<close>

fun mergeRequiredLoop :: "string list \<Rightarrow> string list \<times> string set \<Rightarrow> string list" where
  "mergeRequiredLoop [] (out, seen) = out"
| "mergeRequiredLoop (key0 # keys) (out, seen) =
     (let key = TrimSpace key0 in
      if key = [] then mergeRequiredLoop keys (out, seen)
      else if key \<in> seen then mergeRequiredLoop keys (out, seen)
      else mergeRequiredLoop keys (out @ [key], insert key seen))"

definition mergeRequiredKeys :: "string list \<Rightarrow> string list \<Rightarrow> string list" where
  "mergeRequiredKeys left right =
     (if left = [] \<and> right = [] then [] else mergeRequiredLoop (left @ right) ([], {}))"

text \<open>
  The shape collector. \<open>collectObjectShape\<close> and \<open>collectObjectShapeFromObject\<close>
  call each other; each function below takes as its first argument \<open>self\<close> the function
  that stands for the recursive call \<open>builder.collectObjectShape\<close>, and the recursion is
  closed afterwards by bounding the depth of such calls. \<open>None\<close> is the result of a
  computation that did not finish within the bound; every other result carries the
  builder after the call.
\<close>

type_synonym shape = "schemaMap \<times> string list"

type_synonym collector = "exampleBuilder \<Rightarrow> schemaValue \<Rightarrow> (shape \<times> exampleBuilder) option"

text \<open>The loop of \<open>collectObjectShapeFromObject\<close> over the entries of \<open>allOf\<close>.\<close>

fun collectAllOf ::
  "collector \<Rightarrow> exampleBuilder \<Rightarrow> json list \<Rightarrow> shape \<Rightarrow> (shape \<times> exampleBuilder) option"
where
  "collectAllOf self b [] shape = Some (shape, b)"
| "collectAllOf self b (raw # raws) (properties, required) =
     (case toSchemaValue raw of
        (schema, False) \<Rightarrow> collectAllOf self b raws (properties, required)
      | (schema, True) \<Rightarrow>
          (case self b schema of
             None \<Rightarrow> None
           | Some ((nestedProperties, nestedRequired), b1) \<Rightarrow>
               collectAllOf self b1 raws
                 (mergePropertySchemas properties nestedProperties,
                  mergeRequiredKeys required nestedRequired)))"

definition collectObjectShapeFromObject ::
  "collector \<Rightarrow> exampleBuilder \<Rightarrow> jobject \<Rightarrow> (shape \<times> exampleBuilder) option"
where
  "collectObjectShapeFromObject self b object =
     collectAllOf self b (asSlice (jget object ''allOf''))
       (mapSchemaValues (jget object ''properties''), asStringSlice (jget object ''required''))"

definition collectObjectShapeStep :: "collector \<Rightarrow> collector" where
  "collectObjectShapeStep self b node =
     (case Object node of
        None \<Rightarrow> Some (([], []), b)
      | Some object \<Rightarrow>
          (case resolvedObjectForReference b object of
             ((resolved, rel, True), b1) \<Rightarrow>
               (case resolved of
                  None \<Rightarrow> Some (([], []), runRelease rel b1)
                | Some r \<Rightarrow>
                    (case self b1 (objectSchema r) of
                       None \<Rightarrow> None
                     | Some (shape, b2) \<Rightarrow> Some (shape, runRelease rel b2)))
           | ((resolved, rel, False), b1) \<Rightarrow> collectObjectShapeFromObject self b1 object))"

primrec collectObjectShape :: "nat \<Rightarrow> collector" where
  "collectObjectShape 0 = (\<lambda>b node. None)"
| "collectObjectShape (Suc n) = collectObjectShapeStep (collectObjectShape n)"

text \<open>\<open>requiredPropertyOrder\<close>: the loop is the first loop of \<open>propertyOrder\<close>.\<close>

definition requiredPropertyOrder :: "string list \<Rightarrow> (string \<times> 'v) list \<Rightarrow> string list" where
  "requiredPropertyOrder required properties =
     (if required = [] \<or> properties = [] then []
      else fst (requiredLoop properties required ([], {})))"

text \<open>\<open>schemaTypeName\<close>: the first non-null type name, lower-cased.\<close>

definition schemaTypeName :: "jobject \<Rightarrow> string" where
  "schemaTypeName object =
     (case map_of object ''type'' of
        None \<Rightarrow> []
      | Some typeValue \<Rightarrow>
          let text = ToLower (asString typeValue) in
          if text \<noteq> [] then text
          else
            let items = map (\<lambda>item. ToLower (asString item)) (asSlice typeValue) in
            case find (\<lambda>text. \<not> (text = [] \<or> text = ''null'')) items of
              Some text \<Rightarrow> text
            | None \<Rightarrow> (if ''null'' \<in> set items then ''null'' else []))"

definition hasArrayShape :: "jobject \<Rightarrow> bool" where
  "hasArrayShape object \<longleftrightarrow>
     snd (toSchemaValue (jget object ''items'')) \<or> asSlice (jget object ''prefixItems'') \<noteq> []"

text \<open>The three value sources; \<open>None\<close> is the result \<open>(nil, false)\<close>.\<close>

definition explicitExampleValue :: "jobject \<Rightarrow> json option" where
  "explicitExampleValue object =
     (case map_of object ''default'' of
        Some value \<Rightarrow> Some value
      | None \<Rightarrow>
          (case asSlice (jget object ''examples'') of
             value # _ \<Rightarrow> Some value
           | [] \<Rightarrow> map_of object ''example''))"

definition constExampleValue :: "jobject \<Rightarrow> json option" where
  "constExampleValue object = map_of object ''const''"

definition enumExampleValue :: "jobject \<Rightarrow> json option" where
  "enumExampleValue object =
     (case asSlice (jget object ''enum'') of [] \<Rightarrow> None | value # _ \<Rightarrow> Some value)"

definition scalarPlaceholder :: "string \<Rightarrow> json option" where
  "scalarPlaceholder schemaType = map_of exampleScalarPlaceholders schemaType"

text \<open>\<open>cloneJSONValue\<close>: the deep copy of maps and slices.\<close>

primrec cloneJSONValue :: "json \<Rightarrow> json" where
  "cloneJSONValue JNull = JNull"
| "cloneJSONValue (JBool b) = JBool b"
| "cloneJSONValue (JNum n) = JNum n"
| "cloneJSONValue (JStr s) = JStr s"
| "cloneJSONValue (JArr items) = JArr (map cloneJSONValue items)"
| "cloneJSONValue (JObj object) = JObj (map (map_prod id cloneJSONValue) object)"

text \<open>Whether a value is a \<open>[]any\<close>.\<close>

fun arrayItems :: "json \<Rightarrow> json list option" where
  "arrayItems (JArr items) = Some items"
| "arrayItems _ = None"

text \<open>
  The first schema-like entry of \<open>oneOf\<close>, then \<open>anyOf\<close>, then \<open>allOf\<close>: the entry at
  which the two nested loops of \<open>buildCompositionFallback\<close> return.
\<close>

definition compositionBranch :: "jobject \<Rightarrow> json option" where
  "compositionBranch object =
     find (\<lambda>item. snd (toSchemaValue item))
       (concat (map (\<lambda>keyword. asSlice (jget object keyword)) [''oneOf'', ''anyOf'', ''allOf'']))"

text \<open>\<open>properties[key]\<close>: the zero value for a key that is not in the map.\<close>

definition schemaAt :: "schemaMap \<Rightarrow> string \<Rightarrow> schemaValue" where
  "schemaAt properties key =
     (case map_of properties key of None \<Rightarrow> zeroSchemaValue | Some schema \<Rightarrow> schema)"

text \<open>
  The synthesizer, in the same style: \<open>self\<close> stands for \<open>builder.buildNode\<close> and
  \<open>collect\<close> for \<open>builder.collectObjectShape\<close>.
\<close>

type_synonym synthesizer = "exampleBuilder \<Rightarrow> schemaValue \<Rightarrow> (json \<times> exampleBuilder) option"

text \<open>The loop of \<open>buildObjectFromShape\<close> over the ordered keys.\<close>

fun buildProperties ::
  "synthesizer \<Rightarrow> exampleBuilder \<Rightarrow> schemaMap \<Rightarrow> string list \<Rightarrow> jobject
     \<Rightarrow> (jobject \<times> exampleBuilder) option"
where
  "buildProperties self b properties [] out = Some (out, b)"
| "buildProperties self b properties (key # order) out =
     (case self b (schemaAt properties key) of
        None \<Rightarrow> None
      | Some (value, b1) \<Rightarrow> buildProperties self b1 properties order (AList.update key value out))"

definition buildObjectFromShape ::
  "synthesizer \<Rightarrow> exampleBuilder \<Rightarrow> schemaMap \<Rightarrow> string list \<Rightarrow> (json \<times> exampleBuilder) option"
where
  "buildObjectFromShape self b properties required =
     (if properties = [] then Some (JObj [], b)
      else
        let order = (if mode b = ExampleModeRequired
                     then requiredPropertyOrder required properties
                     else propertyOrder required properties)
        in case buildProperties self b properties order [] of
             None \<Rightarrow> None
           | Some (out, b1) \<Rightarrow> Some (JObj out, b1))"

text \<open>The loop of \<open>buildArrayFromObject\<close> over \<open>prefixItems\<close>.\<close>

fun buildPrefixItems ::
  "synthesizer \<Rightarrow> exampleBuilder \<Rightarrow> json list \<Rightarrow> json list \<Rightarrow> (json list \<times> exampleBuilder) option"
where
  "buildPrefixItems self b [] out = Some (out, b)"
| "buildPrefixItems self b (raw # raws) out =
     (case toSchemaValue raw of
        (item, False) \<Rightarrow> buildPrefixItems self b raws (out @ [JNull])
      | (item, True) \<Rightarrow>
          (case self b item of
             None \<Rightarrow> None
           | Some (value, b1) \<Rightarrow> buildPrefixItems self b1 raws (out @ [value])))"

definition buildArrayFromObject ::
  "synthesizer \<Rightarrow> exampleBuilder \<Rightarrow> jobject \<Rightarrow> (json \<times> exampleBuilder) option"
where
  "buildArrayFromObject self b object =
     (case Option.bind (explicitExampleValue object) arrayItems of
        Some items \<Rightarrow> Some (cloneJSONValue (JArr items), b)
      | None \<Rightarrow>
     (case Option.bind (constExampleValue object) arrayItems of
        Some items \<Rightarrow> Some (cloneJSONValue (JArr items), b)
      | None \<Rightarrow>
     (case Option.bind (enumExampleValue object) arrayItems of
        Some items \<Rightarrow> Some (cloneJSONValue (JArr items), b)
      | None \<Rightarrow>
     (let prefixItems = asSlice (jget object ''prefixItems'') in
      if prefixItems \<noteq> []
      then (case buildPrefixItems self b prefixItems [] of
              None \<Rightarrow> None
            | Some (out, b1) \<Rightarrow> Some (JArr out, b1))
      else case toSchemaValue (jget object ''items'') of
             (item, True) \<Rightarrow>
               (case self b item of
                  None \<Rightarrow> None
                | Some (value, b1) \<Rightarrow> Some (JArr [value], b1))
           | (item, False) \<Rightarrow> Some (JArr [], b)))))"

text \<open>\<open>buildCompositionFallback\<close>: the value and the \<open>ok\<close> flag.\<close>

definition buildCompositionFallback ::
  "synthesizer \<Rightarrow> exampleBuilder \<Rightarrow> jobject \<Rightarrow> ((json \<times> bool) \<times> exampleBuilder) option"
where
  "buildCompositionFallback self b object =
     (case compositionBranch object of
        None \<Rightarrow> Some ((JNull, False), b)
      | Some item \<Rightarrow>
          (case self b (fst (toSchemaValue item)) of
             None \<Rightarrow> None
           | Some (value, b1) \<Rightarrow> Some ((value, True), b1)))"

definition buildFromObject ::
  "collector \<Rightarrow> synthesizer \<Rightarrow> exampleBuilder \<Rightarrow> jobject \<Rightarrow> (json \<times> exampleBuilder) option"
where
  "buildFromObject collect self b object =
     (let schemaType = schemaTypeName object in
      case collect b (objectSchema object) of
        None \<Rightarrow> None
      | Some ((properties, required), b1) \<Rightarrow>
          if schemaType = ''object'' \<or> properties \<noteq> [] \<or> required \<noteq> []
          then buildObjectFromShape self b1 properties required
          else if schemaType = ''array'' \<or> hasArrayShape object
          then buildArrayFromObject self b1 object
          else case explicitExampleValue object of
            Some v \<Rightarrow> Some (cloneJSONValue v, b1)
          | None \<Rightarrow>
          (case constExampleValue object of
            Some v \<Rightarrow> Some (cloneJSONValue v, b1)
          | None \<Rightarrow>
          (case enumExampleValue object of
            Some v \<Rightarrow> Some (cloneJSONValue v, b1)
          | None \<Rightarrow>
          (case buildCompositionFallback self b1 object of
            None \<Rightarrow> None
          | Some ((v, ok), b2) \<Rightarrow>
              if ok then Some (v, b2)
              else (case scalarPlaceholder schemaType of
                      Some p \<Rightarrow> Some (p, b2)
                    | None \<Rightarrow> Some (JNull, b2))))))"

definition buildNodeStep :: "collector \<Rightarrow> synthesizer \<Rightarrow> synthesizer" where
  "buildNodeStep collect self b node =
     (if Bool node \<noteq> None then Some (JNull, b)
      else case Object node of
        None \<Rightarrow> Some (JNull, b)
      | Some object \<Rightarrow>
          (case resolvedObjectForReference b object of
             ((resolved, rel, True), b1) \<Rightarrow>
               (case resolved of
                  None \<Rightarrow> Some (JNull, runRelease rel b1)
                | Some r \<Rightarrow>
                    (case self b1 (objectSchema r) of
                       None \<Rightarrow> None
                     | Some (v, b2) \<Rightarrow> Some (v, runRelease rel b2)))
           | ((resolved, rel, False), b1) \<Rightarrow> buildFromObject collect self b1 object))"

text \<open>
  \<open>buildNode n\<close>: the synthesis with calls of \<open>buildNode\<close> and of
  \<open>collectObjectShape\<close> nested at most \<open>n\<close> deep.
\<close>

primrec buildNode :: "nat \<Rightarrow> synthesizer" where
  "buildNode 0 = (\<lambda>b node. None)"
| "buildNode (Suc n) = buildNodeStep (collectObjectShape n) (buildNode n)"

text \<open>The builder that \<open>generateExampleValue\<close> creates for a parsed document.\<close>

definition newBuilder :: "schemaDocument \<Rightarrow> ExampleMode \<Rightarrow> exampleBuilder" where
  "newBuilder d m = \<lparr>activeRefs = Map.empty, mode = m, doc = d\<rparr>"

definition fixtureRaw :: jobject where
  "fixtureRaw = [(''$ref'', JStr ''#/$defs/Config''),
    (''$defs'', JObj [(''Config'', JObj [
       (''type'', JStr ''object''),
       (''required'', JArr [JStr ''name'', JStr ''settings'']),
       (''properties'', JObj [
          (''name'', JObj [(''type'', JStr ''string''), (''default'', JStr ''demo'')]),
          (''mode'', JObj [(''type'', JStr ''string''), (''examples'', JArr [JStr ''safe''])]),
          (''count'', JObj [(''type'', JStr ''integer'')]),
          (''features'', JObj [(''type'', JStr ''array''), (''items'', JObj [(''type'', JStr ''string'')])]),
          (''settings'', JObj [(''type'', JStr ''object''), (''required'', JArr [JStr ''enabled'']),
              (''properties'', JObj [
                 (''enabled'', JObj [(''type'', JStr ''boolean''), (''default'', JBool True)]),
                 (''note'', JObj [(''type'', JStr ''string'')])])])])])])]"

definition fixtureDoc :: schemaDocument where
  "fixtureDoc = \<lparr>Ref = ''#/$defs/Config'', Defs = mapSchemaValues (jget fixtureRaw ''$defs''),
     Root = objectSchema fixtureRaw, RawKeywords = fixtureRaw\<rparr>"

section \<open>The activation multiset is restored\<close>

text \<open>
  The activation map as a multiset: every reference that is a key has a positive count.
\<close>

definition positiveCounts :: "exampleBuilder \<Rightarrow> bool" where
  "positiveCounts b \<longleftrightarrow> (\<forall>ref c. activeRefs b ref = Some c \<longrightarrow> 0 < c)"

text \<open>A collector or synthesizer that leaves the builder as it found it.\<close>

definition restores ::
  "(exampleBuilder \<Rightarrow> 'a \<Rightarrow> ('r \<times> exampleBuilder) option) \<Rightarrow> bool" where
  "restores f \<longleftrightarrow>
     (\<forall>b x r b'. positiveCounts b \<longrightarrow> f b x = Some (r, b') \<longrightarrow> b' = b)"

lemma restoresD: "restores f \<Longrightarrow> positiveCounts b \<Longrightarrow> f b x = Some (r, b') \<Longrightarrow> b' = b"
  unfolding restores_def by blast

lemma activeCount_positive:
  "positiveCounts b \<Longrightarrow> \<not> 0 < activeCount b ref \<Longrightarrow> activeRefs b ref = None"
  by (cases "activeRefs b ref") (auto simp: positiveCounts_def activeCount_def)

lemma enterReference_entered:
  assumes "positiveCounts b" and "enterReference b ref = ((Some r, ok), b1)"
  shows "release r b1 = b \<and> positiveCounts b1 \<and> ok \<and> r = TrimSpace ref
         \<and> activeRefs b r = None \<and> activeRefs b1 = (activeRefs b)(r \<mapsto> 1)"
proof -
  from assms(2) have r: "r = TrimSpace ref" and nz: "\<not> 0 < activeCount b r" and ok: ok
    and b1: "b1 = b\<lparr>activeRefs := (activeRefs b)(r \<mapsto> activeCount b r + 1)\<rparr>"
    by (auto simp: enterReference_def Let_def split: if_splits)
  from assms(1) nz have none: "activeRefs b r = None" by (rule activeCount_positive)
  then have c0: "activeCount b r = 0" by (simp add: activeCount_def)
  have "activeCount b1 r = 1" by (simp add: b1 none activeCount_def)
  then have "release r b1 = b1\<lparr>activeRefs := (activeRefs b1)(r := None)\<rparr>"
    by (simp add: release_def)
  also have "\<dots> = b" using none by (simp add: b1 fun_upd_idem)
  finally have rel: "release r b1 = b" .
  have "positiveCounts b1"
    using assms(1) by (auto simp: positiveCounts_def b1 c0 split: if_splits)
  moreover have "activeRefs b1 = (activeRefs b)(r \<mapsto> 1)" by (simp add: b1 c0)
  ultimately show ?thesis using rel r ok none by simp
qed

lemma enterReference_not_entered:
  "enterReference b ref = ((None, ok), b1) \<Longrightarrow> b1 = b"
  by (auto simp: enterReference_def Let_def split: if_splits)

lemma enterReference_refused:
  "enterReference b ref = ((rel, False), b1) \<Longrightarrow> b1 = b \<and> rel = None"
  by (auto simp: enterReference_def Let_def split: if_splits)

lemma resolvedObjectForReference_release:
  assumes "positiveCounts b"
    and "resolvedObjectForReference b object = ((resolved, rel, handled), b1)"
  shows "runRelease rel b1 = b \<and> positiveCounts b1"
proof (cases rel)
  case None
  with assms(2) have "b1 = b"
    by (auto simp: resolvedObjectForReference_def Let_def
        split: if_splits prod.splits option.splits
        dest: enterReference_not_entered enterReference_refused)
  with None assms(1) show ?thesis by (simp add: runRelease_def)
next
  case (Some r)
  with assms(2) obtain ref ok where "enterReference b ref = ((Some r, ok), b1)"
    by (auto simp: resolvedObjectForReference_def Let_def
        split: if_splits prod.splits option.splits)
  with assms(1) have "release r b1 = b \<and> positiveCounts b1"
    using enterReference_entered by blast
  with Some show ?thesis by (simp add: runRelease_def)
qed

lemma collectAllOf_restores:
  assumes "restores self" and "positiveCounts b"
    and "collectAllOf self b raws shape = Some (r, b')"
  shows "b' = b"
  using assms(2,3)
proof (induction raws arbitrary: shape b)
  case Nil
  then show ?case by simp
next
  case (Cons raw raws)
  obtain properties required where shape: "shape = (properties, required)" by (cases shape)
  obtain schema ok where ts: "toSchemaValue raw = (schema, ok)" by (cases "toSchemaValue raw")
  show ?case
  proof (cases ok)
    case False
    with Cons shape ts show ?thesis by simp
  next
    case True
    with Cons.prems shape ts obtain nested b1 where
      s: "self b schema = Some (nested, b1)" and
      rest: "collectAllOf self b1 raws
               (mergePropertySchemas properties (fst nested), mergeRequiredKeys required (snd nested))
             = Some (r, b')"
      by (auto split: option.splits)
    from assms(1) Cons.prems(1) s have "b1 = b" by (rule restoresD)
    with Cons.IH [OF _ rest] Cons.prems(1) show ?thesis by simp
  qed
qed

lemma collectObjectShapeStep_restores:
  assumes "restores self"
  shows "restores (collectObjectShapeStep self)"
  unfolding restores_def
proof (intro allI impI)
  fix b node r b'
  assume pos: "positiveCounts b" and res: "collectObjectShapeStep self b node = Some (r, b')"
  show "b' = b"
  proof (cases "Object node")
    case None
    with res show ?thesis by (simp add: collectObjectShapeStep_def)
  next
    case (Some object)
    obtain resolved rel handled b1 where
      ro: "resolvedObjectForReference b object = ((resolved, rel, handled), b1)"
      by (metis prod.exhaust)
    from pos ro have rel: "runRelease rel b1 = b" and pos1: "positiveCounts b1"
      using resolvedObjectForReference_release by blast+
    show ?thesis
    proof (cases handled)
      case False
      with ro have "b1 = b"
        by (auto simp: resolvedObjectForReference_def Let_def
            split: if_splits prod.splits option.splits)
      with res Some ro False pos show ?thesis
        by (auto simp: collectObjectShapeStep_def collectObjectShapeFromObject_def
            dest: collectAllOf_restores [OF assms])
    next
      case True
      show ?thesis
      proof (cases resolved)
        case None
        with res Some ro True rel show ?thesis by (simp add: collectObjectShapeStep_def)
      next
        case (Some target)
        with res \<open>Object node = Some object\<close> ro True obtain b2 where
          s: "self b1 (objectSchema target) = Some (r, b2)" and b': "b' = runRelease rel b2"
          by (auto simp: collectObjectShapeStep_def split: option.splits)
        from assms pos1 s have "b2 = b1" by (rule restoresD)
        with b' rel show ?thesis by simp
      qed
    qed
  qed
qed

lemma collectObjectShape_restores: "restores (collectObjectShape n)"
proof (induction n)
  case 0
  show ?case by (simp add: restores_def)
next
  case (Suc n)
  then show ?case by (simp add: collectObjectShapeStep_restores)
qed

lemma buildProperties_restores:
  assumes "restores self" and "positiveCounts b"
    and "buildProperties self b properties order out = Some (r, b')"
  shows "b' = b"
  using assms(2,3)
proof (induction order arbitrary: out b)
  case Nil
  then show ?case by simp
next
  case (Cons key order)
  from Cons.prems obtain v b1 where
    s: "self b (schemaAt properties key) = Some (v, b1)" and
    rest: "buildProperties self b1 properties order (AList.update key v out) = Some (r, b')"
    by (auto split: option.splits)
  from assms(1) Cons.prems(1) s have "b1 = b" by (rule restoresD)
  with Cons.IH [OF _ rest] Cons.prems(1) show ?case by simp
qed

lemma buildPrefixItems_restores:
  assumes "restores self" and "positiveCounts b"
    and "buildPrefixItems self b raws out = Some (r, b')"
  shows "b' = b"
  using assms(2,3)
proof (induction raws arbitrary: out b)
  case Nil
  then show ?case by simp
next
  case (Cons raw raws)
  obtain item ok where ts: "toSchemaValue raw = (item, ok)" by (cases "toSchemaValue raw")
  show ?case
  proof (cases ok)
    case False
    with Cons ts show ?thesis by simp
  next
    case True
    with Cons.prems ts obtain v b1 where
      s: "self b item = Some (v, b1)" and
      rest: "buildPrefixItems self b1 raws (out @ [v]) = Some (r, b')"
      by (auto split: option.splits)
    from assms(1) Cons.prems(1) s have "b1 = b" by (rule restoresD)
    with Cons.IH [OF _ rest] Cons.prems(1) show ?thesis by simp
  qed
qed

lemma buildObjectFromShape_restores:
  assumes "restores self" and "positiveCounts b"
    and "buildObjectFromShape self b properties required = Some (r, b')"
  shows "b' = b"
  using assms(3) buildProperties_restores [OF assms(1,2)]
  by (auto simp: buildObjectFromShape_def Let_def split: if_splits option.splits)

lemma buildArrayFromObject_restores:
  assumes "restores self" and "positiveCounts b"
    and "buildArrayFromObject self b object = Some (r, b')"
  shows "b' = b"
  using assms(3) buildPrefixItems_restores [OF assms(1,2)] restoresD [OF assms(1,2)]
  by (auto simp: buildArrayFromObject_def Let_def split: if_splits option.splits prod.splits bool.splits)

lemma buildCompositionFallback_restores:
  assumes "restores self" and "positiveCounts b"
    and "buildCompositionFallback self b object = Some (r, b')"
  shows "b' = b"
  using assms(3) restoresD [OF assms(1,2)]
  by (auto simp: buildCompositionFallback_def split: option.splits)

lemma buildFromObject_restores:
  assumes "restores collect" and "restores self" and "positiveCounts b"
    and "buildFromObject collect self b object = Some (r, b')"
  shows "b' = b"
proof -
  from assms(4) obtain properties required b1 where
    c: "collect b (objectSchema object) = Some ((properties, required), b1)"
    by (auto simp: buildFromObject_def Let_def split: option.splits)
  from assms(1,3) c have b1: "b1 = b" by (rule restoresD)
  show ?thesis
    using assms(4) c b1
      buildObjectFromShape_restores [OF assms(2,3)]
      buildArrayFromObject_restores [OF assms(2,3)]
      buildCompositionFallback_restores [OF assms(2,3)]
    by (auto simp: buildFromObject_def Let_def split: if_splits option.splits)
qed

lemma buildNodeStep_restores:
  assumes "restores collect" and "restores self"
  shows "restores (buildNodeStep collect self)"
  unfolding restores_def
proof (intro allI impI)
  fix b node r b'
  assume pos: "positiveCounts b" and res: "buildNodeStep collect self b node = Some (r, b')"
  show "b' = b"
  proof (cases "Bool node \<noteq> None \<or> Object node = None")
    case True
    with res show ?thesis by (auto simp: buildNodeStep_def split: if_splits)
  next
    case False
    then obtain object where obj: "Object node = Some object" and nb: "Bool node = None" by auto
    obtain resolved rel handled b1 where
      ro: "resolvedObjectForReference b object = ((resolved, rel, handled), b1)"
      by (metis prod.exhaust)
    from pos ro have rel: "runRelease rel b1 = b" and pos1: "positiveCounts b1"
      using resolvedObjectForReference_release by blast+
    show ?thesis
    proof (cases handled)
      case False
      with ro have "b1 = b"
        by (auto simp: resolvedObjectForReference_def Let_def
            split: if_splits prod.splits option.splits)
      with res obj nb ro False pos show ?thesis
        by (auto simp: buildNodeStep_def dest: buildFromObject_restores [OF assms])
    next
      case True
      show ?thesis
      proof (cases resolved)
        case None
        with res obj nb ro True rel show ?thesis by (simp add: buildNodeStep_def)
      next
        case (Some target)
        with res obj nb ro True obtain b2 where
          s: "self b1 (objectSchema target) = Some (r, b2)" and b': "b' = runRelease rel b2"
          by (auto simp: buildNodeStep_def split: option.splits)
        from assms(2) pos1 s have "b2 = b1" by (rule restoresD)
        with b' rel show ?thesis by simp
      qed
    qed
  qed
qed

lemma buildNode_restores: "restores (buildNode n)"
proof (induction n)
  case 0
  show ?case by (simp add: restores_def)
next
  case (Suc n)
  then show ?case by (simp add: buildNodeStep_restores collectObjectShape_restores)
qed

lemma positiveCounts_newBuilder: "positiveCounts (newBuilder d m)"
  by (simp add: positiveCounts_def newBuilder_def)

text \<open>
  C10. On a builder whose activation map is a multiset, every synthesis call and every
  shape-collection call that returns leaves the builder, and so the activation map, as it
  was before the call; a successful \<open>enterReference\<close> adds one activation, and its
  release callback removes it again, deleting the entry; a top-level \<open>buildNode\<close> call
  on the fresh builder leaves \<open>activeRefs\<close> empty.
\<close>

theorem activeRefs_restored:
  "(positiveCounts b \<longrightarrow> buildNode n b node = Some (v, b') \<longrightarrow> b' = b)
   \<and> (positiveCounts b \<longrightarrow> collectObjectShape n b node = Some (s, b'') \<longrightarrow> b'' = b)
   \<and> (positiveCounts b \<longrightarrow> enterReference b ref = ((Some r, ok), b1) \<longrightarrow>
        activeRefs b r = None \<and> activeRefs b1 = (activeRefs b)(r \<mapsto> 1) \<and> release r b1 = b)
   \<and> (buildNode n (newBuilder d m) (Root d) = Some (v, b') \<longrightarrow> activeRefs b' = Map.empty)"
proof -
  have "buildNode n (newBuilder d m) (Root d) = Some (v, b') \<longrightarrow> b' = newBuilder d m"
    using restoresD [OF buildNode_restores positiveCounts_newBuilder] by blast
  then have "buildNode n (newBuilder d m) (Root d) = Some (v, b') \<longrightarrow> activeRefs b' = Map.empty"
    by (auto simp: newBuilder_def)
  then show ?thesis
    using restoresD [OF buildNode_restores] restoresD [OF collectObjectShape_restores]
      enterReference_entered
    by blast
qed

theorem activeRefs_restored_witness:
  "\<exists>v b'. buildNode 6 (newBuilder fixtureDoc ''required'') (Root fixtureDoc) = Some (v, b')
     \<and> activeRefs b' = Map.empty"
proof -
  have "map_option fst (buildNode 6 (newBuilder fixtureDoc ''required'') (Root fixtureDoc))
      = Some (JObj [(''name'', JStr ''demo''), (''settings'', JObj [(''enabled'', JBool True)])])"
    by code_simp
  then obtain v b' where
    r: "buildNode 6 (newBuilder fixtureDoc ''required'') (Root fixtureDoc) = Some (v, b')"
    by auto
  with activeRefs_restored [of _ 6 _ v b' _ _ _ _ _ _ fixtureDoc "''required''"]
  have "activeRefs b' = Map.empty" by blast
  with r show ?thesis by blast
qed

section \<open>Shape merging\<close>

text \<open>
  The words of the specification. First-seen-wins: a name has the schema of the first
  source, in order, that declares it. Required names: the lists concatenated, then
  de-duplicated, every name staying where it is first seen.
\<close>

fun firstWins :: "schemaMap list \<Rightarrow> string \<Rightarrow> schemaValue option" where
  "firstWins [] name = None"
| "firstWins (properties # others) name =
     (case map_of properties name of
        Some schema \<Rightarrow> Some schema
      | None \<Rightarrow> firstWins others name)"

definition spec_required :: "string list list \<Rightarrow> string list" where
  "spec_required rs = firstOccurrences (concat rs)"

text \<open>
  The amended text: every name is trimmed and the empty names are dropped before the
  duplicates are removed.
\<close>

definition amended_required :: "string list list \<Rightarrow> string list" where
  "amended_required rs =
     firstOccurrences (filter (\<lambda>key. key \<noteq> []) (map TrimSpace (concat rs)))"

lemma map_of_filter_key_None:
  "map_of (filter (\<lambda>(key, value). map_of left key = None) right) name
     = (if map_of left name = None then map_of right name else None)"
  by (induction right) auto

lemma map_of_mergePropertySchemas:
  "map_of (mergePropertySchemas left right) name =
     (case map_of left name of Some schema \<Rightarrow> Some schema | None \<Rightarrow> map_of right name)"
  by (auto simp: mergePropertySchemas_def map_add_def map_of_filter_key_None
      split: option.splits)

lemma firstWins_merge:
  "firstWins (mergePropertySchemas left right # others) = firstWins (left # right # others)"
  by (rule ext) (simp add: map_of_mergePropertySchemas split: option.splits)

lemma firstWins_single: "firstWins [properties] = map_of properties"
  by (rule ext) (simp split: option.splits)

lemma removeAll_filter_comm: "removeAll x (filter Q xs) = filter Q (removeAll x xs)"
  by (induction xs) auto

lemma mergeRequiredLoop_spec:
  "mergeRequiredLoop keys (out, seen) =
     out @ firstOccurrences (filter (\<lambda>key. key \<noteq> [] \<and> key \<notin> seen) (map TrimSpace keys))"
proof (induction keys arbitrary: out seen)
  case Nil
  show ?case by simp
next
  case (Cons key0 keys)
  have rm: "removeAll (TrimSpace key0)
        (filter (\<lambda>key. key \<noteq> [] \<and> key \<notin> seen) (map TrimSpace keys))
      = filter (\<lambda>key. key \<noteq> [] \<and> key \<notin> insert (TrimSpace key0) seen) (map TrimSpace keys)"
    by (induction keys) auto
  show ?case
    using Cons.IH [of out seen] Cons.IH [of "out @ [TrimSpace key0]" "insert (TrimSpace key0) seen"]
    by (auto simp: Let_def rm)
qed

lemma mergeRequiredKeys_amended:
  "mergeRequiredKeys left right = amended_required [left, right]"
  by (simp add: mergeRequiredKeys_def mergeRequiredLoop_spec amended_required_def)

lemma firstOccurrences_append:
  "firstOccurrences (xs @ ys) = firstOccurrences xs @ firstOccurrences (filter (\<lambda>y. y \<notin> set xs) ys)"
proof (induction xs arbitrary: ys rule: firstOccurrences.induct)
  case 1
  show ?case by simp
next
  case (2 x xs)
  have "removeAll x (xs @ ys) = removeAll x xs @ removeAll x ys" by simp
  moreover have "filter (\<lambda>y. y \<notin> set (removeAll x xs)) (removeAll x ys)
      = filter (\<lambda>y. y \<noteq> x \<and> y \<notin> set xs) ys"
    by (induction ys) auto
  ultimately show ?case
    using 2 [of "removeAll x ys"] by (simp add: removeAll_filter_comm)
qed

lemma firstOccurrences_idem: "firstOccurrences (firstOccurrences xs) = firstOccurrences xs"
proof (induction xs rule: firstOccurrences.induct)
  case 1
  show ?case by simp
next
  case (2 x xs)
  have "x \<notin> set (firstOccurrences (removeAll x xs))"
    by (simp add: firstOccurrences_set)
  then have "removeAll x (firstOccurrences (removeAll x xs)) = firstOccurrences (removeAll x xs)"
    by simp
  with 2 show ?case by simp
qed

lemma normalized_keys_fixed:
  "(\<And>key. key \<in> set xs \<Longrightarrow> key \<noteq> [] \<and> TrimSpace key = key) \<Longrightarrow>
     filter (\<lambda>key. key \<noteq> []) (map TrimSpace xs) = xs"
proof (induction xs)
  case Nil
  show ?case by simp
next
  case (Cons x xs)
  have x: "x \<noteq> [] \<and> TrimSpace x = x" by (rule Cons.prems) simp
  have "filter (\<lambda>key. key \<noteq> []) (map TrimSpace xs) = xs"
    by (rule Cons.IH) (rule Cons.prems, simp)
  with x show ?case by simp
qed

lemma normalized_keys_member:
  assumes "key \<in> set (filter (\<lambda>key. key \<noteq> []) (map TrimSpace xs))"
  shows "key \<noteq> [] \<and> TrimSpace key = key"
proof -
  from assms have ne: "key \<noteq> []" and "key \<in> TrimSpace ` set xs"
    by simp_all
  then obtain x where "key = TrimSpace x" by blast
  then have "TrimSpace key = key" by (simp only: TrimSpace_idem)
  with ne show ?thesis by simp
qed

lemma amended_required_absorb:
  "amended_required (amended_required rs # others) = amended_required (rs @ others)"
proof -
  define a where "a = firstOccurrences (filter (\<lambda>key. key \<noteq> []) (map TrimSpace (concat rs)))"
  define c where "c = filter (\<lambda>key. key \<noteq> []) (map TrimSpace (concat others))"
  have mem: "key \<noteq> [] \<and> TrimSpace key = key" if "key \<in> set a" for key
  proof -
    from that have "key \<in> set (filter (\<lambda>key. key \<noteq> []) (map TrimSpace (concat rs)))"
      by (simp only: a_def firstOccurrences_set)
    then show ?thesis by (rule normalized_keys_member)
  qed
  have fixed: "filter (\<lambda>key. key \<noteq> []) (map TrimSpace a) = a"
    by (rule normalized_keys_fixed) (rule mem)
  have "amended_required (a # others) = firstOccurrences (filter (\<lambda>key. key \<noteq> []) (map TrimSpace a) @ c)"
    by (simp add: amended_required_def c_def)
  also have "\<dots> = firstOccurrences (a @ c)"
    by (simp only: fixed)
  also have "\<dots> = firstOccurrences a @ firstOccurrences (filter (\<lambda>y. y \<notin> set a) c)"
    by (rule firstOccurrences_append)
  also have "firstOccurrences a = a"
    by (simp only: a_def firstOccurrences_idem)
  also have "a @ firstOccurrences (filter (\<lambda>y. y \<notin> set a) c)
      = firstOccurrences (filter (\<lambda>key. key \<noteq> []) (map TrimSpace (concat rs)) @ c)"
    by (simp only: a_def firstOccurrences_append firstOccurrences_set)
  finally have "amended_required (a # others)
      = firstOccurrences (filter (\<lambda>key. key \<noteq> []) (map TrimSpace (concat rs)) @ c)" .
  then show ?thesis
    by (simp add: amended_required_def a_def c_def)
qed

lemma collectAllOf_merge:
  assumes "restores self" and "positiveCounts b"
    and "collectAllOf self b raws (properties0, required0) = Some ((properties, required), b')"
  shows "\<exists>shapes.
      list_all2 (\<lambda>raw sh. self b (fst (toSchemaValue raw)) = Some (sh, b))
        (filter (\<lambda>raw. snd (toSchemaValue raw)) raws) shapes
      \<and> map_of properties = firstWins (properties0 # map fst shapes)
      \<and> required = (if shapes = [] then required0
                     else amended_required (required0 # map snd shapes))
      \<and> b' = b"
  using assms(3)
proof (induction raws arbitrary: properties0 required0)
  case Nil
  then show ?case by (intro exI [of _ "[]"]) (simp add: firstWins_single)
next
  case (Cons raw raws)
  obtain schema ok where ts: "toSchemaValue raw = (schema, ok)" by (cases "toSchemaValue raw")
  show ?case
  proof (cases ok)
    case False
    with Cons ts show ?thesis by simp
  next
    case True
    with Cons.prems ts obtain np nr b1 where
      s: "self b schema = Some ((np, nr), b1)" and
      rest: "collectAllOf self b1 raws
               (mergePropertySchemas properties0 np, mergeRequiredKeys required0 nr)
             = Some ((properties, required), b')"
      by (auto split: option.splits)
    from assms(1,2) s have b1: "b1 = b" by (rule restoresD)
    from Cons.IH [OF rest [unfolded b1]] obtain shapes where
      l: "list_all2 (\<lambda>raw sh. self b (fst (toSchemaValue raw)) = Some (sh, b))
            (filter (\<lambda>raw. snd (toSchemaValue raw)) raws) shapes"
      and p: "map_of properties = firstWins (mergePropertySchemas properties0 np # map fst shapes)"
      and r: "required = (if shapes = [] then mergeRequiredKeys required0 nr
                else amended_required (mergeRequiredKeys required0 nr # map snd shapes))"
      and b': "b' = b"
      by blast
    let ?shapes = "(np, nr) # shapes"
    have "list_all2 (\<lambda>raw sh. self b (fst (toSchemaValue raw)) = Some (sh, b))
            (filter (\<lambda>raw. snd (toSchemaValue raw)) (raw # raws)) ?shapes"
      using l s ts True b1 by simp
    moreover have "map_of properties = firstWins (properties0 # map fst ?shapes)"
      using p by (simp only: firstWins_merge list.map fst_conv)
    moreover have "required = amended_required (required0 # map snd ?shapes)"
    proof (cases "shapes = []")
      case True
      with r show ?thesis by (simp add: mergeRequiredKeys_amended)
    next
      case False
      with r have "required = amended_required (amended_required [required0, nr] # map snd shapes)"
        by (simp add: mergeRequiredKeys_amended)
      then show ?thesis by (simp add: amended_required_absorb)
    qed
    ultimately show ?thesis using b' by (intro exI [of _ ?shapes]) simp
  qed
qed

text \<open>
  C3, as amended. The effective shape of an object with own properties and required
  names and with \<open>allOf\<close> entries: each entry that is a schema contributes its own
  effective shape, computed by \<open>collectObjectShape\<close> (through reference resolution). The
  properties merge first-seen-wins over the object's own properties followed by the
  entries in order. The required names are the object's own list when no entry is a
  schema, and otherwise the concatenation of all the lists with every name trimmed,
  empty names dropped and duplicates removed, every name staying where it is first seen.
\<close>

theorem collectObjectShape_merge:
  assumes "positiveCounts b"
    and "collectObjectShapeFromObject (collectObjectShape n) b object
           = Some ((properties, required), b')"
  shows "\<exists>shapes.
      list_all2 (\<lambda>raw sh. collectObjectShape n b (fst (toSchemaValue raw)) = Some (sh, b))
        (filter (\<lambda>raw. snd (toSchemaValue raw)) (asSlice (jget object ''allOf''))) shapes
      \<and> map_of properties = firstWins (mapSchemaValues (jget object ''properties'') # map fst shapes)
      \<and> required = (if shapes = [] then asStringSlice (jget object ''required'')
                     else amended_required (asStringSlice (jget object ''required'') # map snd shapes))
      \<and> b' = b"
proof -
  from assms(2) have "collectAllOf (collectObjectShape n) b (asSlice (jget object ''allOf''))
      (mapSchemaValues (jget object ''properties''), asStringSlice (jget object ''required''))
      = Some ((properties, required), b')"
    by (simp add: collectObjectShapeFromObject_def)
  then show ?thesis
    by (rule collectAllOf_merge [OF collectObjectShape_restores assms(1)])
qed

definition mergeDoc :: schemaDocument where
  "mergeDoc = \<lparr>Ref = [], Defs = [], Root = zeroSchemaValue,
     RawKeywords = [(''$defs'', JObj [(''A'', JObj [
        (''required'', JArr [JStr ''a'', JStr ''c'']),
        (''properties'', JObj [(''a'', JObj [(''type'', JStr ''string'')]),
                               (''c'', JObj [(''type'', JStr ''integer'')])])])])]\<rparr>"

definition mergeObject :: jobject where
  "mergeObject = [(''required'', JArr [JStr ''a '']),
     (''properties'', JObj [(''a'', JObj [(''type'', JStr ''boolean'')])]),
     (''allOf'', JArr [JObj [(''$ref'', JStr ''#/$defs/A'')]])]"

theorem collectObjectShape_merge_witness:
  "\<exists>shapes.
      list_all2 (\<lambda>raw sh. collectObjectShape 4 (newBuilder mergeDoc ''all'') (fst (toSchemaValue raw))
                   = Some (sh, newBuilder mergeDoc ''all''))
        (filter (\<lambda>raw. snd (toSchemaValue raw)) (asSlice (jget mergeObject ''allOf''))) shapes
      \<and> map_of [(''a'', objectSchema [(''type'', JStr ''boolean'')]),
                 (''c'', objectSchema [(''type'', JStr ''integer'')])]
          = firstWins (mapSchemaValues (jget mergeObject ''properties'') # map fst shapes)
      \<and> [''a'', ''c''] = (if shapes = [] then asStringSlice (jget mergeObject ''required'')
            else amended_required (asStringSlice (jget mergeObject ''required'') # map snd shapes))"
proof -
  have "map_option fst (collectObjectShapeFromObject (collectObjectShape 4) (newBuilder mergeDoc ''all'') mergeObject)
      = Some ([(''a'', objectSchema [(''type'', JStr ''boolean'')]),
               (''c'', objectSchema [(''type'', JStr ''integer'')])], [''a'', ''c''])"
    by code_simp
  then obtain b' where
    r: "collectObjectShapeFromObject (collectObjectShape 4) (newBuilder mergeDoc ''all'') mergeObject
      = Some (([(''a'', objectSchema [(''type'', JStr ''boolean'')]),
                (''c'', objectSchema [(''type'', JStr ''integer'')])], [''a'', ''c'']), b')"
    by auto
  from collectObjectShape_merge [OF positiveCounts_newBuilder r]
  show ?thesis by blast
qed

text \<open>
  C3 as stated fails for the required names: the object's own list \<open>[''a '']\<close> and the
  branch's list \<open>[''a'', ''c'']\<close> concatenate and de-duplicate to three names, and the
  merged list has two, the first name being trimmed before it is compared.
\<close>

theorem collectObjectShape_required_counterexample:
  "map_option (snd \<circ> fst)
     (collectObjectShape 5 (newBuilder mergeDoc ''all'') (objectSchema mergeObject))
     = Some [''a'', ''c'']
   \<and> spec_required [[''a ''], [''a'', ''c'']] = [''a '', ''a'', ''c'']
   \<and> asStringSlice (jget mergeObject ''required'') = [''a '']"
  by code_simp

section \<open>Scalar precedence\<close>

text \<open>
  The words of the specification: the value is the first that is present of the explicit
  value (\<open>default\<close>, else the first of \<open>examples\<close>, else \<open>example\<close>), \<open>const\<close>, the
  first of \<open>enum\<close>, the synthesized composition branch, and the placeholder of the type;
  it is null when none is present.
\<close>

fun firstSome :: "'a option list \<Rightarrow> 'a option" where
  "firstSome [] = None"
| "firstSome (Some v # candidates) = Some v"
| "firstSome (None # candidates) = firstSome candidates"

definition firstItem :: "json \<Rightarrow> json option" where
  "firstItem v = (case asSlice v of [] \<Rightarrow> None | item # _ \<Rightarrow> Some item)"

definition spec_directValue :: "jobject \<Rightarrow> json option" where
  "spec_directValue object =
     firstSome [map_of object ''default'', firstItem (jget object ''examples''),
                map_of object ''example'', map_of object ''const'',
                firstItem (jget object ''enum'')]"

definition spec_scalarValue :: "jobject \<Rightarrow> json option \<Rightarrow> json" where
  "spec_scalarValue object branch =
     (case firstSome [spec_directValue object, branch,
                      map_of exampleScalarPlaceholders (schemaTypeName object)] of
        Some v \<Rightarrow> v
      | None \<Rightarrow> JNull)"

lemma cloneJSONValue_id: "cloneJSONValue v = v"
proof (induction v)
  case (JArr items)
  then show ?case by (simp add: map_idI)
next
  case (JObj object)
  have "map (map_prod id cloneJSONValue) object = object"
  proof (rule map_idI)
    fix kv assume kv: "kv \<in> set object"
    obtain k v where "kv = (k, v)" by (cases kv)
    with kv JObj show "map_prod id cloneJSONValue kv = kv" by auto
  qed
  then show ?case by simp
qed simp_all

lemma spec_directValue_sources:
  "spec_directValue object =
     (case explicitExampleValue object of
        Some v \<Rightarrow> Some v
      | None \<Rightarrow> (case constExampleValue object of
          Some v \<Rightarrow> Some v
        | None \<Rightarrow> enumExampleValue object))"
  by (auto simp: spec_directValue_def explicitExampleValue_def constExampleValue_def
      enumExampleValue_def firstItem_def split: option.splits list.splits)

text \<open>
  C6. For a schema object that, after resolution, has no object shape (its type is not
  \<open>object\<close> and its collected shape has no property and no required name) and no array
  shape (its type is not \<open>array\<close> and it has neither \<open>items\<close> nor \<open>prefixItems\<close>),
  the synthesized value follows the precedence: explicit value (\<open>default\<close>, else first
  of \<open>examples\<close>, else \<open>example\<close>), then \<open>const\<close>, then the first \<open>enum\<close> entry,
  then the synthesis of the first usable entry of \<open>oneOf\<close>, then \<open>anyOf\<close>, then
  \<open>allOf\<close>, then the placeholder of the type, and null if nothing matches. The
  placeholders are the literal \<open><string>\<close>, \<open>0\<close> for number and integer, false and null.
\<close>

theorem buildFromObject_scalar_precedence:
  assumes "collectObjectShape n b (objectSchema object) = Some (([], []), b1)"
    and "schemaTypeName object \<noteq> ''object''"
    and "schemaTypeName object \<noteq> ''array''"
    and "\<not> hasArrayShape object"
  shows "buildFromObject (collectObjectShape n) (buildNode n) b object =
     (case compositionBranch object of
        None \<Rightarrow> Some (spec_scalarValue object None, b1)
      | Some item \<Rightarrow>
          if spec_directValue object \<noteq> None then Some (spec_scalarValue object None, b1)
          else (case buildNode n b1 (fst (toSchemaValue item)) of
                  None \<Rightarrow> None
                | Some (v, b2) \<Rightarrow> Some (spec_scalarValue object (Some v), b2)))
   \<and> compositionBranch object =
       find (\<lambda>item. snd (toSchemaValue item))
         (asSlice (jget object ''oneOf'') @ asSlice (jget object ''anyOf'')
            @ asSlice (jget object ''allOf''))
   \<and> map (map_of exampleScalarPlaceholders)
         [''string'', ''number'', ''integer'', ''boolean'', ''null'', ''other'']
       = [Some (JStr ''<string>''), Some (JNum 0), Some (JNum 0), Some (JBool False),
          Some JNull, None]"
proof -
  have branch: "compositionBranch object =
       find (\<lambda>item. snd (toSchemaValue item))
         (asSlice (jget object ''oneOf'') @ asSlice (jget object ''anyOf'')
            @ asSlice (jget object ''allOf''))"
    by (simp add: compositionBranch_def)
  have table: "map (map_of exampleScalarPlaceholders)
         [''string'', ''number'', ''integer'', ''boolean'', ''null'', ''other'']
       = [Some (JStr ''<string>''), Some (JNum 0), Some (JNum 0), Some (JBool False),
          Some JNull, None]"
    by (simp add: exampleScalarPlaceholders_def)
  have main: "buildFromObject (collectObjectShape n) (buildNode n) b object =
     (case compositionBranch object of
        None \<Rightarrow> Some (spec_scalarValue object None, b1)
      | Some item \<Rightarrow>
          if spec_directValue object \<noteq> None then Some (spec_scalarValue object None, b1)
          else (case buildNode n b1 (fst (toSchemaValue item)) of
                  None \<Rightarrow> None
                | Some (v, b2) \<Rightarrow> Some (spec_scalarValue object (Some v), b2)))"
  proof (cases "spec_directValue object")
    case (Some d)
    then have "buildFromObject (collectObjectShape n) (buildNode n) b object = Some (d, b1)"
      using assms
      by (auto simp: buildFromObject_def Let_def spec_directValue_sources cloneJSONValue_id
          split: option.splits)
    with Some show ?thesis
      by (simp add: spec_scalarValue_def split: option.splits)
  next
    case None
    then have src: "explicitExampleValue object = None" "constExampleValue object = None"
      "enumExampleValue object = None"
      by (auto simp: spec_directValue_sources split: option.splits)
    show ?thesis
    proof (cases "compositionBranch object")
      case nb: None
      then show ?thesis
        using assms src None
        by (simp add: buildFromObject_def Let_def buildCompositionFallback_def
            spec_scalarValue_def scalarPlaceholder_def split: option.splits)
    next
      case (Some item)
      then show ?thesis
        using assms src None
        by (simp add: buildFromObject_def Let_def buildCompositionFallback_def
            spec_scalarValue_def split: option.splits prod.splits)
    qed
  qed
  from main branch table show ?thesis by (intro conjI)
qed

definition scalarObject :: jobject where
  "scalarObject = [(''type'', JArr [JStr ''null'', JStr ''String'']),
     (''anyOf'', JArr [JObj [(''const'', JNum 7)]]),
     (''oneOf'', JArr [JStr ''skipped'', JObj [(''type'', JStr ''boolean'')]])]"

theorem buildFromObject_scalar_precedence_witness:
  "map_option fst
     (buildFromObject (collectObjectShape 3) (buildNode 3) (newBuilder mergeDoc ''all'') scalarObject)
     = Some (JBool False)
   \<and> spec_scalarValue scalarObject None = JStr ''<string>''"
proof -
  let ?b = "newBuilder mergeDoc ''all''"
  have "map_option fst (collectObjectShape 3 ?b (objectSchema scalarObject)) = Some ([], [])"
    by code_simp
  then obtain b1 where c: "collectObjectShape 3 ?b (objectSchema scalarObject) = Some (([], []), b1)"
    by auto
  have t1: "schemaTypeName scalarObject \<noteq> ''object''" by code_simp
  have t2: "schemaTypeName scalarObject \<noteq> ''array''" by code_simp
  have t3: "\<not> hasArrayShape scalarObject" by code_simp
  have b1: "b1 = ?b"
    using restoresD [OF collectObjectShape_restores positiveCounts_newBuilder c] .
  have br: "compositionBranch scalarObject = Some (JObj [(''type'', JStr ''boolean'')])"
    by code_simp
  have d: "spec_directValue scalarObject = None" by code_simp
  have v: "map_option fst (buildNode 3 ?b (fst (toSchemaValue (JObj [(''type'', JStr ''boolean'')]))))
      = Some (JBool False)"
    by code_simp
  have s1: "spec_scalarValue scalarObject (Some (JBool False)) = JBool False" by code_simp
  have s2: "spec_scalarValue scalarObject None = JStr ''<string>''" by code_simp
  from buildFromObject_scalar_precedence [OF c t1 t2 t3]
  have "buildFromObject (collectObjectShape 3) (buildNode 3) ?b scalarObject =
      (case buildNode 3 ?b (fst (toSchemaValue (JObj [(''type'', JStr ''boolean'')]))) of
         None \<Rightarrow> None
       | Some (v, b2) \<Rightarrow> Some (spec_scalarValue scalarObject (Some v), b2))"
    by (simp add: br d b1)
  with v s1 s2 show ?thesis by (auto split: option.splits)
qed

section \<open>Unresolved references\<close>

text \<open>A value that is neither an object nor an array.\<close>

fun isScalar :: "json \<Rightarrow> bool" where
  "isScalar (JArr items) = False"
| "isScalar (JObj object) = False"
| "isScalar _ = True"

definition danglingRaw :: jobject where
  "danglingRaw =
     [(''$defs'', JObj [(''A'', JObj [(''type'', JStr ''object''),
         (''properties'', JObj [(''a'', JObj [(''$ref'', JStr ''#/$defs/Missing''),
                                            (''type'', JStr ''string'')])])])]),
      (''properties'', JObj [(''p'', JObj [(''$ref'', JStr ''#/$defs/Missing''),
                                         (''type'', JStr ''string'')]),
                            (''q'', JObj [(''$ref'', JStr ''#/list/1'')])]),
      (''list'', JArr [JObj []]), (''title'', JStr ''t'')]"

definition danglingDoc :: schemaDocument where
  "danglingDoc = \<lparr>Ref = [], Defs = mapSchemaValues (jget danglingRaw ''$defs''),
     Root = objectSchema danglingRaw, RawKeywords = danglingRaw\<rparr>"

definition danglingNode :: jobject where
  "danglingNode = [(''$ref'', JStr ''#/$defs/Missing''), (''type'', JStr ''string'')]"

definition danglingBare :: jobject where
  "danglingBare = [(''$ref'', JStr ''#/$defs/Missing'')]"

lemma resolveJSONPointer_trimmed:
  "resolveJSONPointer root (TrimSpace ref) = resolveJSONPointer root ref"
  by (simp add: resolveJSONPointer_def TrimSpace_idem)

lemma resolveLocalReference_not_found:
  assumes "resolveJSONPointer (JObj (RawKeywords (doc b))) ref = None"
  shows "resolveLocalReference b ref = (zeroSchemaValue, False)"
  using assms
  by (simp add: resolveLocalReference_def Let_def resolveJSONPointer_trimmed)

lemma resolvedObjectForReference_not_found:
  assumes "asString (jget object ''$ref'') \<noteq> []"
    and "resolveJSONPointer (JObj (RawKeywords (doc b))) (asString (jget object ''$ref'')) = None"
  shows "resolvedObjectForReference b object
           = ((Some (stripReferenceKeyword object), None, True), b)"
  using assms(1) resolveLocalReference_not_found [OF assms(2)]
  by (simp add: resolvedObjectForReference_def Let_def)

lemma resolveTokens_append:
  "resolveTokens root (ts1 @ ts2) =
     (case resolveTokens root ts1 of None \<Rightarrow> None | Some cur \<Rightarrow> resolveTokens cur ts2)"
proof (induction ts1 arbitrary: root)
  case Nil
  show ?case by simp
next
  case (Cons t ts1)
  show ?case
    by (cases root) (simp_all add: Let_def Cons.IH split: option.splits)
qed

lemma buildNode_empty_object:
  "buildNode (Suc (Suc n)) b (objectSchema []) = Some (JNull, b)"
proof -
  have r: "resolvedObjectForReference b [] = ((None, None, False), b)"
    by (simp add: resolvedObjectForReference_def jget_def)
  have c: "collectObjectShape (Suc n) b (objectSchema []) = Some (([], []), b)"
    by (simp add: collectObjectShapeStep_def objectSchema_def r
        collectObjectShapeFromObject_def jget_def asStringSlice_def del: collectObjectShape.simps(2))
       (simp add: collectObjectShapeStep_def objectSchema_def r
        collectObjectShapeFromObject_def jget_def asStringSlice_def)
  have t: "schemaTypeName [] = []" by (simp add: schemaTypeName_def)
  have h: "\<not> hasArrayShape []" by (simp add: hasArrayShape_def jget_def)
  have f: "buildFromObject (collectObjectShape (Suc n)) (buildNode (Suc n)) b [] = Some (JNull, b)"
    by (simp add: buildFromObject_def t h c explicitExampleValue_def constExampleValue_def
        enumExampleValue_def jget_def buildCompositionFallback_def compositionBranch_def
        scalarPlaceholder_def exampleScalarPlaceholders_def
        del: collectObjectShape.simps buildNode.simps)
  have "buildNode (Suc (Suc n)) b (objectSchema [])
      = buildNodeStep (collectObjectShape (Suc n)) (buildNode (Suc n)) b (objectSchema [])"
    by (simp only: buildNode.simps)
  also have "\<dots> = buildFromObject (collectObjectShape (Suc n)) (buildNode (Suc n)) b []"
    by (simp add: buildNodeStep_def objectSchema_def r del: collectObjectShape.simps buildNode.simps)
  finally show ?thesis by (simp only: f)
qed

section \<open>Definition graph\<close>

record definitionEdge =
  Path :: string
  Target :: string

record definitionPathState =
  Definition :: string
  Prefix :: string
  Depth :: nat

text \<open>\<open>appendPath\<close>: the segments joined by a dot, an empty side left out.\<close>

definition appendPath :: "string \<Rightarrow> string \<Rightarrow> string" where
  "appendPath base0 segment0 =
     (let base = TrimSpace base0; segment = TrimSpace segment0 in
      if base = [] then segment
      else if segment = [] then base
      else base @ ''.'' @ segment)"

text \<open>The key \<open>target + "\x00" + path\<close> of the edge map and of the seen set.\<close>

definition pairKey :: "string \<Rightarrow> string \<Rightarrow> string" where
  "pairKey target path = target @ [CHR 0x00] @ path"

type_synonym edgeMap = "(string \<times> definitionEdge) list"

definition addDefinitionEdge :: "edgeMap \<Rightarrow> string \<Rightarrow> string \<Rightarrow> edgeMap" where
  "addDefinitionEdge edgeMap path0 target0 =
     (let path = TrimSpace path0; target = TrimSpace target0 in
      if path = [] \<or> target = [] then edgeMap
      else AList.update (pairKey target path) \<lparr>Path = path, Target = target\<rparr> edgeMap)"

definition sortedSchemaValueKeys :: "schemaMap \<Rightarrow> string list" where
  "sortedSchemaValueKeys values = sort (mapKeys values)"

text \<open>The number of constructors of a value, which decreases along the recursion below.\<close>

primrec jsize :: "json \<Rightarrow> nat" where
  "jsize JNull = 0"
| "jsize (JBool b) = 0"
| "jsize (JNum n) = 0"
| "jsize (JStr s) = 0"
| "jsize (JArr items) = Suc (sum_list (map jsize items))"
| "jsize (JObj object) = Suc (sum_list (map snd (map (map_prod id jsize) object)))"

definition schemaSize :: "schemaValue \<Rightarrow> nat" where
  "schemaSize schema = (case Object schema of None \<Rightarrow> 0 | Some object \<Rightarrow> jsize (JObj object))"

lemma jsize_member: "v \<in> set items \<Longrightarrow> jsize v < jsize (JArr items)"
  by (induction items) auto

lemma jsize_value: "(k, v) \<in> set object \<Longrightarrow> jsize v < jsize (JObj object)"
  by (induction object) auto

lemma jsize_jget: "jsize (jget object key) < jsize (JObj object)"
  by (auto simp: jget_def split: option.splits dest!: map_of_SomeD jsize_value)

lemma jsize_asSlice: "v \<in> set (asSlice raw) \<Longrightarrow> jsize v < jsize raw"
  by (cases raw) (auto dest: jsize_member)

lemma schemaEntries_member:
  "(k, s) \<in> set (schemaEntries object) \<Longrightarrow> \<exists>v. (k, v) \<in> set object \<and> toSchemaValue v = (s, True)"
proof (induction object)
  case Nil
  then show ?case by simp
next
  case (Cons kv object)
  obtain k' v' where kv: "kv = (k', v')" by (cases kv)
  obtain s' ok where ts: "toSchemaValue v' = (s', ok)" by (cases "toSchemaValue v'")
  show ?case
  proof (cases "ok \<and> (k, s) = (k', s')")
    case True
    with kv ts show ?thesis by auto
  next
    case False
    with Cons.prems kv ts have "(k, s) \<in> set (schemaEntries object)"
      by (cases ok) auto
    then obtain v where "(k, v) \<in> set object \<and> toSchemaValue v = (s, True)"
      using Cons.IH by blast
    then show ?thesis by auto
  qed
qed

lemma clearjunk_member: "(k, v) \<in> set (AList.clearjunk al) \<Longrightarrow> (k, v) \<in> set al"
proof -
  assume m: "(k, v) \<in> set (AList.clearjunk al)"
  have "distinct (map fst (AList.clearjunk al))" by (rule distinct_clearjunk)
  with m have "map_of (AList.clearjunk al) k = Some v" by simp
  then have "map_of al k = Some v" by (simp add: map_of_clearjunk)
  then show ?thesis by (rule map_of_SomeD)
qed

lemma mapSchemaValues_member:
  assumes "(k, s) \<in> set (mapSchemaValues raw)"
  shows "\<exists>object v. raw = JObj object \<and> (k, v) \<in> set object \<and> toSchemaValue v = (s, True)"
proof -
  from assms obtain object where raw: "raw = JObj object" by (cases raw) auto
  with assms have "(k, s) \<in> set (schemaEntries (AList.clearjunk object))" by simp
  then obtain v where "(k, v) \<in> set (AList.clearjunk object)" and "toSchemaValue v = (s, True)"
    using schemaEntries_member by blast
  with raw show ?thesis by (auto dest: clearjunk_member)
qed

lemma toSchemaValue_size: "toSchemaValue v = (s, ok) \<Longrightarrow> schemaSize s \<le> jsize v"
  by (cases v) (auto simp: schemaSize_def)

lemma schemaAt_size: "schemaSize (schemaAt (mapSchemaValues raw) key) \<le> jsize raw"
proof (cases "map_of (mapSchemaValues raw) key")
  case None
  then show ?thesis by (simp add: schemaAt_def zeroSchemaValue_def schemaSize_def)
next
  case (Some s)
  then have "(key, s) \<in> set (mapSchemaValues raw)" by (rule map_of_SomeD)
  then obtain object v where raw: "raw = JObj object" and "(key, v) \<in> set object"
    and "toSchemaValue v = (s, True)"
    using mapSchemaValues_member by blast
  then have "schemaSize s \<le> jsize v" and "jsize v < jsize (JObj object)"
    by (auto dest: toSchemaValue_size jsize_value)
  with Some raw show ?thesis by (simp add: schemaAt_def)
qed

text \<open>
  The values that the two nested loops over \<open>allOf\<close>, \<open>anyOf\<close> and \<open>oneOf\<close>
  visit, in the order of the visits.
\<close>

definition compositionEntries :: "jobject \<Rightarrow> json list" where
  "compositionEntries object =
     concat (map (\<lambda>keyword. asSlice (jget object keyword)) [''allOf'', ''anyOf'', ''oneOf''])"

lemma schemaSize_jget:
  "Object schema = Some object \<Longrightarrow> jsize (jget object key) < schemaSize schema"
  by (simp add: schemaSize_def jsize_jget del: jsize.simps)

lemma schemaSize_asSlice:
  "Object schema = Some object \<Longrightarrow> v \<in> set (asSlice (jget object key)) \<Longrightarrow>
     jsize v < schemaSize schema"
  using jsize_asSlice [of v "jget object key"] jsize_jget [of object key]
  by (simp add: schemaSize_def del: jsize.simps)

lemma schemaSize_schemaAt:
  "Object schema = Some object \<Longrightarrow>
     schemaSize (schemaAt (mapSchemaValues (jget object key)) name) < schemaSize schema"
  using schemaAt_size [of "jget object key" name] jsize_jget [of object key]
  by (simp add: schemaSize_def del: jsize.simps)

lemma compositionEntries_size:
  assumes "Object schema = Some object" and "v \<in> set (compositionEntries object)"
  shows "jsize v < schemaSize schema"
proof -
  from assms(2) obtain keyword where "v \<in> set (asSlice (jget object keyword))"
    by (auto simp: compositionEntries_def)
  with assms(1) show ?thesis by (rule schemaSize_asSlice)
qed

lemma Suc_double_less: "Suc (2 * a) < 2 * b \<longleftrightarrow> a < b"
  by arith

lemma schemaSize_literal:
  "schemaSize \<lparr>Bool = bb, Object = Some object\<rparr> = jsize (JObj object)"
  "schemaSize \<lparr>Bool = bb, Object = None\<rparr> = 0"
  by (simp_all add: schemaSize_def)

text \<open>
  \<open>collectDefinitionEdges\<close> and \<open>collectDefinitionEdgesAny\<close>: the edge map is passed
  in and returned.
\<close>

function collectDefinitionEdges :: "schemaValue \<Rightarrow> string \<Rightarrow> edgeMap \<Rightarrow> edgeMap"
  and collectDefinitionEdgesAny :: "json \<Rightarrow> string \<Rightarrow> edgeMap \<Rightarrow> edgeMap"
where
  "collectDefinitionEdges schema path edgeMap =
     (case Object schema of
        None \<Rightarrow> edgeMap
      | Some object \<Rightarrow>
          let target = rootDefinitionName (asString (jget object ''$ref''));
              m1 = (if target \<noteq> [] then addDefinitionEdge edgeMap path target else edgeMap);
              m2 = fold (\<lambda>v m. collectDefinitionEdgesAny v path m)
                    (compositionEntries object) m1;
              m3 = fold (\<lambda>keyword m. collectDefinitionEdgesAny (jget object keyword) path m)
                    [''if'', ''then'', ''else'', ''not'', ''contentSchema''] m2;
              m4 = fold (\<lambda>keyword m.
                      collectDefinitionEdgesAny (jget object keyword) (appendPath path ''[]'') m)
                    [''items'', ''prefixItems'', ''contains'', ''additionalItems'',
                     ''unevaluatedItems''] m3;
              m5 = fold (\<lambda>keyword m.
                      collectDefinitionEdgesAny (jget object keyword) (appendPath path ''[]'') m)
                    [''additionalProperties'', ''unevaluatedProperties''] m4;
              m6 = fold (\<lambda>key m.
                      collectDefinitionEdges
                        (schemaAt (mapSchemaValues (jget object ''properties'')) key)
                        (appendPath path key) m)
                    (sortedSchemaValueKeys (mapSchemaValues (jget object ''properties''))) m5
          in fold (\<lambda>key m.
                 collectDefinitionEdges
                   (schemaAt (mapSchemaValues (jget object ''patternProperties'')) key)
                   (appendPath path key) m)
               (sortedSchemaValueKeys (mapSchemaValues (jget object ''patternProperties''))) m6)"
| "collectDefinitionEdgesAny raw path edgeMap =
     (case raw of
        JArr typed \<Rightarrow> fold (\<lambda>v m. collectDefinitionEdgesAny v path m) typed edgeMap
      | _ \<Rightarrow>
          (case toSchemaValue raw of
             (v, True) \<Rightarrow> collectDefinitionEdges v path edgeMap
           | (v, False) \<Rightarrow> edgeMap))"
  by pat_completeness auto
termination
  by (relation "measure (\<lambda>x. case x of
          Inl (schema, path, m) \<Rightarrow> 2 * schemaSize schema
        | Inr (raw, path, m) \<Rightarrow> 2 * jsize raw + 1)")
     (simp_all del: jsize.simps
        add: schemaSize_jget schemaSize_asSlice schemaSize_schemaAt jsize_member
          schemaSize_literal Suc_double_less compositionEntries_size)

definition nodeProperties :: "schemaValue \<Rightarrow> schemaMap" where
  "nodeProperties node =
     (case Object node of None \<Rightarrow> [] | Some object \<Rightarrow> mapSchemaValues (jget object ''properties''))"

text \<open>\<open>edgeMap[key]\<close>: the zero edge for a key that is not in the map.\<close>

definition edgeAt :: "edgeMap \<Rightarrow> string \<Rightarrow> definitionEdge" where
  "edgeAt edgeMap key =
     (case map_of edgeMap key of None \<Rightarrow> \<lparr>Path = [], Target = []\<rparr> | Some edge \<Rightarrow> edge)"

definition definitionEdges :: "schemaValue \<Rightarrow> definitionEdge list" where
  "definitionEdges node =
     (case Object node of
        None \<Rightarrow> []
      | Some object \<Rightarrow>
          let properties = nodeProperties node in
          if properties = [] then []
          else
            let edgeMap = fold (\<lambda>name m. collectDefinitionEdges (schemaAt properties name) name m)
                            (sortedSchemaValueKeys properties) []
            in if edgeMap = [] then []
               else map (edgeAt edgeMap) (sort (mapKeys edgeMap)))"

definition maxDepth :: nat where
  "maxDepth = 20"

text \<open>
  The state of the traversal: the paths found for each definition, the seen set and the
  queue. \<open>paths[name]\<close> is nil for a name that is not a key.
\<close>

type_synonym pathsState = "(string \<rightharpoonup> string list) \<times> string set \<times> definitionPathState list"

definition pathsAt :: "(string \<rightharpoonup> string list) \<Rightarrow> string \<Rightarrow> string list" where
  "pathsAt paths name = (case paths name of None \<Rightarrow> [] | Some values \<Rightarrow> values)"

text \<open>The inner loop of \<open>buildDefinitionPaths\<close> over the edges of the current definition.\<close>

fun expandEdges ::
  "string \<Rightarrow> definitionPathState \<Rightarrow> definitionEdge list \<Rightarrow> pathsState \<Rightarrow> pathsState"
where
  "expandEdges rootDefinition current [] st = st"
| "expandEdges rootDefinition current (edge # edges) (paths, seen, queue) =
     (if Target edge = rootDefinition
      then expandEdges rootDefinition current edges (paths, seen, queue)
      else
        let nextPrefix = appendPath (Prefix current) (Path edge) in
        if TrimSpace nextPrefix = []
        then expandEdges rootDefinition current edges (paths, seen, queue)
        else
          let seenKey = pairKey (Target edge) nextPrefix in
          if seenKey \<in> seen
          then expandEdges rootDefinition current edges (paths, seen, queue)
          else expandEdges rootDefinition current edges
                 (paths(Target edge \<mapsto> pathsAt paths (Target edge) @ [nextPrefix]),
                  insert seenKey seen,
                  queue @ [\<lparr>Definition = Target edge, Prefix = nextPrefix,
                            Depth = Depth current + 1\<rparr>]))"

text \<open>\<open>definitions[name]\<close>: the zero value for a name that is not a definition.\<close>

definition definitionAt :: "schemaMap \<Rightarrow> string \<Rightarrow> schemaValue" where
  "definitionAt definitions name = schemaAt definitions name"

lemma expandEdges_queue:
  "\<exists>new. snd (snd (expandEdges root current edges (paths, seen, queue))) = queue @ new
     \<and> (\<forall>s \<in> set new. Depth s = Depth current + 1)"
proof (induction edges arbitrary: paths seen queue)
  case Nil
  show ?case by simp
next
  case (Cons edge edges)
  let ?next = "appendPath (Prefix current) (Path edge)"
  let ?item = "\<lparr>Definition = Target edge, Prefix = ?next, Depth = Depth current + 1\<rparr>"
  show ?case
  proof (cases "Target edge = root \<or> TrimSpace ?next = [] \<or> pairKey (Target edge) ?next \<in> seen")
    case True
    with Cons.IH [of paths seen queue] show ?thesis by (auto simp: Let_def)
  next
    case False
    from Cons.IH [of "paths(Target edge \<mapsto> pathsAt paths (Target edge) @ [?next])"
        "insert (pairKey (Target edge) ?next) seen" "queue @ [?item]"]
    obtain new where
      n: "snd (snd (expandEdges root current edges
            (paths(Target edge \<mapsto> pathsAt paths (Target edge) @ [?next]),
             insert (pairKey (Target edge) ?next) seen, queue @ [?item]))) = (queue @ [?item]) @ new"
      and d: "\<forall>s \<in> set new. Depth s = Depth current + 1"
      by blast
    from False n d show ?thesis
      by (intro exI [of _ "?item # new"]) (simp add: Let_def)
  qed
qed

text \<open>The outer loop of \<open>buildDefinitionPaths\<close> over the queue.\<close>

definition queueWeight :: "definitionPathState list \<Rightarrow> nat multiset" where
  "queueWeight queue = mset (map (\<lambda>s. Suc maxDepth - Depth s) queue)"

lemma queueWeight_pop:
  "(queueWeight rest, queueWeight (current # rest)) \<in> mult {(x, y). x < y}"
proof -
  have "(queueWeight rest + {#}, queueWeight rest + {#Suc maxDepth - Depth current#})
          \<in> mult {(x, y). x < y}"
    by (rule one_step_implies_mult) simp_all
  then show ?thesis by (simp add: queueWeight_def)
qed

lemma queueWeight_expand:
  assumes "Depth current < maxDepth"
  shows "(queueWeight (snd (snd (expandEdges root current edges (paths, seen, rest)))),
          queueWeight (current # rest)) \<in> mult {(x, y). x < y}"
proof -
  from expandEdges_queue [of root current edges paths seen rest]
  obtain new where n: "snd (snd (expandEdges root current edges (paths, seen, rest))) = rest @ new"
    and d: "\<forall>s \<in> set new. Depth s = Depth current + 1"
    by blast
  have "(queueWeight rest + queueWeight new,
         queueWeight rest + {#Suc maxDepth - Depth current#}) \<in> mult {(x, y). x < y}"
  proof (rule one_step_implies_mult)
    show "{#Suc maxDepth - Depth current#} \<noteq> {#}" by simp
    show "\<forall>k \<in># queueWeight new. \<exists>j \<in># {#Suc maxDepth - Depth current#}. (k, j) \<in> {(x, y). x < y}"
      using d assms by (auto simp: queueWeight_def)
  qed
  then show ?thesis by (simp add: n queueWeight_def)
qed

function pathsLoop :: "schemaMap \<Rightarrow> string \<Rightarrow> pathsState \<Rightarrow> (string \<rightharpoonup> string list)" where
  "pathsLoop definitions rootDefinition (paths, seen, []) = paths"
| "pathsLoop definitions rootDefinition (paths, seen, current # queue) =
     (if maxDepth \<le> Depth current
      then pathsLoop definitions rootDefinition (paths, seen, queue)
      else pathsLoop definitions rootDefinition
             (expandEdges rootDefinition current
                (definitionEdges (definitionAt definitions (Definition current)))
                (paths, seen, queue)))"
  by pat_completeness auto
termination
proof (relation "inv_image (mult {(x, y). x < y}) (\<lambda>(definitions, rootDefinition, st). queueWeight (snd (snd st)))")
  show "wf (inv_image (mult {(x, y). x < y})
          (\<lambda>(definitions, rootDefinition, st). queueWeight (snd (snd st))))"
    by (intro wf_inv_image wf_mult wf_less)
next
  fix definitions :: schemaMap and rootDefinition :: string and paths :: "string \<rightharpoonup> string list"
    and seen :: "string set" and current :: definitionPathState and queue :: "definitionPathState list"
  show "((definitions, rootDefinition, paths, seen, queue),
         (definitions, rootDefinition, paths, seen, current # queue))
        \<in> inv_image (mult {(x, y). x < y})
            (\<lambda>(definitions, rootDefinition, st). queueWeight (snd (snd st)))"
    by (simp add: queueWeight_pop)
next
  fix definitions :: schemaMap and rootDefinition :: string and paths :: "string \<rightharpoonup> string list"
    and seen :: "string set" and current :: definitionPathState and queue :: "definitionPathState list"
  assume "\<not> maxDepth \<le> Depth current"
  then have "Depth current < maxDepth" by simp
  then show "((definitions, rootDefinition,
          expandEdges rootDefinition current
            (definitionEdges (definitionAt definitions (Definition current))) (paths, seen, queue)),
         (definitions, rootDefinition, paths, seen, current # queue))
        \<in> inv_image (mult {(x, y). x < y})
            (\<lambda>(definitions, rootDefinition, st). queueWeight (snd (snd st)))"
    by (simp add: queueWeight_expand)
qed

definition buildDefinitionPaths :: "schemaMap \<Rightarrow> string \<Rightarrow> (string \<rightharpoonup> string list)" where
  "buildDefinitionPaths definitions rootDefinition =
     (if TrimSpace rootDefinition = [] then Map.empty
      else if map_of definitions rootDefinition = None then Map.empty
      else
        let paths = pathsLoop definitions rootDefinition
              ([rootDefinition \<mapsto> [[]]], {pairKey rootDefinition []},
               [\<lparr>Definition = rootDefinition, Prefix = [], Depth = 0\<rparr>])
        in (\<lambda>name. map_option sort (paths name)))"

section \<open>Render view\<close>

text \<open>
  Modelled from the spec: the method \<open>isZero\<close> of \<open>schemaValue\<close> is not among the
  sources. Section 3: a value with neither the boolean flag nor the object is the zero
  value, skipped and not rendered.
\<close>

definition isZero :: "schemaValue \<Rightarrow> bool" where
  "isZero node \<longleftrightarrow> Bool node = None \<and> Object node = None"

text \<open>\<open>renderDefinitions\<close>: the definitions, or the root alone when there are none.\<close>

definition renderDefinitions :: "schemaDocument \<Rightarrow> string \<Rightarrow> schemaMap" where
  "renderDefinitions d rootName =
     (if Defs d \<noteq> [] then Defs d
      else
        let name0 = TrimSpace rootName;
            name = (if name0 = [] then ''Root'' else name0)
        in [(name, Root d)])"

definition nodeRequired :: "schemaValue \<Rightarrow> string list" where
  "nodeRequired node =
     (case Object node of None \<Rightarrow> [] | Some object \<Rightarrow> asStringSlice (jget object ''required''))"

definition propertyHeadingName :: "string \<Rightarrow> schemaValue \<Rightarrow> string" where
  "propertyHeadingName key prop =
     (case Object prop of
        None \<Rightarrow> key
      | Some object \<Rightarrow>
          let refName = rootDefinitionName (asString (jget object ''$ref''))
          in if refName \<noteq> [] then refName else key)"

text \<open>\<open>escapeInline\<close>: every backtick preceded by a backslash.\<close>

definition escapeInline :: "string \<Rightarrow> string" where
  "escapeInline s = concat (map (\<lambda>c. if c = CHR 0x60 then [CHR 0x5C, CHR 0x60] else [c]) s)"

text \<open>
  \<open>buildPropertyPaths\<close>: the base paths of the definition extended by the property
  name, without duplicates, sorted; for the root definition the bare property name is left
  out.
\<close>

definition buildPropertyPaths :: "string list \<Rightarrow> string \<Rightarrow> bool \<Rightarrow> string list" where
  "buildPropertyPaths basePaths propertyName0 hideRootPath =
     (let propertyName = TrimSpace propertyName0 in
      if propertyName = [] then []
      else if basePaths = [] then []
      else
        let dedup = filter (\<lambda>path. TrimSpace path \<noteq> [] \<and> \<not> (hideRootPath \<and> path = propertyName))
                      (map (\<lambda>base. appendPath base propertyName) basePaths)
        in sort (remdups dedup))"

text \<open>
  The view of one property and of one definition. Of the view, the model keeps what
  the definitions and their references decide: the names, the headings, the paths and
  the order. The description and attribute texts, and the header of the document, are
  formatted strings that no reference takes part in.
\<close>

record propertyView =
  Heading :: string
  PropertyName :: string
  Paths :: "string list"

record definitionView =
  DefinitionName :: string
  Properties :: "propertyView list"
  HasProperties :: bool

datatype error =
    ErrUnknownExampleMode string
  | ErrParseDocument string
  | ErrNoDefinitions
  | ErrNoRenderableDefinitions

definition renderProperty ::
  "string \<Rightarrow> schemaMap \<Rightarrow> string list \<Rightarrow> bool \<Rightarrow> string \<Rightarrow> propertyView" where
  "renderProperty defName properties basePaths isRootDefinition propName =
     (let prop = schemaAt properties propName;
          paths = buildPropertyPaths basePaths propName isRootDefinition
      in \<lparr>Heading = escapeInline (defName @ ''.'' @ propertyHeadingName propName prop),
          PropertyName = escapeInline propName,
          Paths = map escapeInline paths\<rparr>)"

text \<open>The loop of \<open>buildRenderView\<close> over the ordered definition names.\<close>

fun renderDefinitionViews ::
  "schemaMap \<Rightarrow> (string \<rightharpoonup> string list) \<Rightarrow> string \<Rightarrow> string list \<Rightarrow> definitionView list"
where
  "renderDefinitionViews definitions definitionPaths rootDefinition [] = []"
| "renderDefinitionViews definitions definitionPaths rootDefinition (defName # defOrder) =
     (let node = definitionAt definitions defName in
      if isZero node
      then renderDefinitionViews definitions definitionPaths rootDefinition defOrder
      else
        let properties = nodeProperties node;
            required = nodeRequired node;
            order = propertyOrder required properties;
            basePaths = pathsAt definitionPaths defName;
            isRootDefinition = (defName = rootDefinition)
        in \<lparr>DefinitionName = escapeInline defName,
            Properties = map (renderProperty defName properties basePaths isRootDefinition) order,
            HasProperties = (order \<noteq> [])\<rparr>
           # renderDefinitionViews definitions definitionPaths rootDefinition defOrder)"

text \<open>
  \<open>buildRenderView\<close>: the definition views, or one of its two errors. The options
  only set the header and the wrapping of the texts.
\<close>

definition buildRenderView :: "schemaDocument \<Rightarrow> error + definitionView list" where
  "buildRenderView d =
     (let rootName = rootDefinitionName (Ref d);
          definitions = renderDefinitions d rootName;
          defOrder = definitionOrder definitions rootName
      in case defOrder of
           [] \<Rightarrow> Inl ErrNoDefinitions
         | rootDefinition # _ \<Rightarrow>
             let definitionPaths = buildDefinitionPaths definitions rootDefinition;
                 views = renderDefinitionViews definitions definitionPaths rootDefinition defOrder
             in if views = [] then Inl ErrNoRenderableDefinitions else Inr views)"

text \<open>
  \<open>normalizeExampleMode\<close> and \<open>generateExampleValue\<close>. The decoded document, or the
  error of decoding it, is the argument \<open>parsed\<close>: \<open>parseDocument\<close> is not among the
  sources. The result \<open>Inr None\<close> is a synthesis nested deeper than \<open>n\<close> calls.
\<close>

definition normalizeExampleMode :: "ExampleMode \<Rightarrow> error + ExampleMode" where
  "normalizeExampleMode m =
     (let normalized = ToLower (TrimSpace m) in
      if normalized = ExampleModeAll \<or> normalized = ExampleModeRequired then Inr normalized
      else Inl (ErrUnknownExampleMode m))"

definition generateExampleValue ::
  "nat \<Rightarrow> error + schemaDocument \<Rightarrow> ExampleMode \<Rightarrow> error + json option" where
  "generateExampleValue n parsed m =
     (case normalizeExampleMode m of
        Inl e \<Rightarrow> Inl e
      | Inr normalized \<Rightarrow>
          (case parsed of
             Inl e \<Rightarrow> Inl e
           | Inr d \<Rightarrow> Inr (map_option fst (buildNode n (newBuilder d normalized) (Root d)))))"

lemma isZero_missing:
  "map_of definitions name = None \<Longrightarrow> isZero (definitionAt definitions name)"
  by (simp add: definitionAt_def schemaAt_def zeroSchemaValue_def isZero_def)

lemma definitionEdges_missing:
  "map_of definitions name = None \<Longrightarrow> definitionEdges (definitionAt definitions name) = []"
  by (simp add: definitionAt_def schemaAt_def zeroSchemaValue_def definitionEdges_def)

lemma renderDefinitionViews_empty:
  "renderDefinitionViews definitions paths root order = []
     \<longleftrightarrow> (\<forall>name \<in> set order. isZero (definitionAt definitions name))"
  by (induction order) (simp_all add: Let_def)

lemma set_mapKeys: "set (mapKeys m) = fst ` set m"
  by (simp add: mapKeys_def)

lemma set_definitionOrder: "set (definitionOrder defs rootName) = set (mapKeys defs)"
proof (cases "sort (mapKeys defs)")
  case Nil
  then have "mapKeys defs = []" by (metis set_empty set_sort)
  with Nil show ?thesis by (simp add: definitionOrder_def)
next
  case (Cons first rest)
  define root where "root = (if TrimSpace rootName = []
      then (if map_of defs ''Config'' \<noteq> None then ''Config'' else first) else TrimSpace rootName)"
  have keys: "set (sort (mapKeys defs)) = set (mapKeys defs)" by simp
  have eq: "definitionOrder defs rootName
      = (if map_of defs root = None then sort (mapKeys defs)
         else root # filter (\<lambda>name. name \<noteq> root) (sort (mapKeys defs)))"
    unfolding definitionOrder_def Let_def root_def Cons by (simp only: list.case)
  show ?thesis
  proof (cases "map_of defs root = None")
    case True
    with eq keys show ?thesis by simp
  next
    case False
    then have "root \<in> fst ` set defs" by (metis map_of_eq_None_iff)
    then have "root \<in> set (mapKeys defs)" by (simp add: set_mapKeys)
    then have "insert root (set (mapKeys defs) - {root}) = set (mapKeys defs)" by blast
    with eq False keys show ?thesis by auto
  qed
qed

lemma renderDefinitions_nonempty: "renderDefinitions d rootName \<noteq> []"
  by (simp add: renderDefinitions_def Let_def)

lemma buildRenderView_error:
  "buildRenderView d = Inl e \<longleftrightarrow>
     e = ErrNoRenderableDefinitions
     \<and> (\<forall>name. isZero (definitionAt (renderDefinitions d (rootDefinitionName (Ref d))) name))"
proof -
  define definitions where "definitions = renderDefinitions d (rootDefinitionName (Ref d))"
  define defOrder where "defOrder = definitionOrder definitions (rootDefinitionName (Ref d))"
  have s: "set defOrder = fst ` set definitions"
    by (simp add: defOrder_def set_definitionOrder set_mapKeys)
  have "definitions \<noteq> []" by (simp add: definitions_def renderDefinitions_nonempty)
  with s have "defOrder \<noteq> []" by (cases definitions) auto
  then obtain root rest where o: "defOrder = root # rest" by (cases defOrder) auto
  have z: "(\<forall>name \<in> set defOrder. isZero (definitionAt definitions name))
      \<longleftrightarrow> (\<forall>name. isZero (definitionAt definitions name))"
  proof
    assume a: "\<forall>name \<in> set defOrder. isZero (definitionAt definitions name)"
    show "\<forall>name. isZero (definitionAt definitions name)"
    proof
      fix name
      show "isZero (definitionAt definitions name)"
      proof (cases "map_of definitions name")
        case None
        then show ?thesis by (rule isZero_missing)
      next
        case (Some node)
        then have "name \<in> fst ` set definitions" by (metis map_of_eq_None_iff option.distinct(1))
        with s have "name \<in> set defOrder" by simp
        with a show ?thesis by (rule bspec)
      qed
    qed
  qed simp
  have "buildRenderView d =
      (if renderDefinitionViews definitions (buildDefinitionPaths definitions root) root defOrder = []
       then Inl ErrNoRenderableDefinitions
       else Inr (renderDefinitionViews definitions (buildDefinitionPaths definitions root) root defOrder))"
    using o by (simp add: buildRenderView_def Let_def definitions_def [symmetric]
        defOrder_def [symmetric] del: renderDefinitionViews.simps)
  then show ?thesis
    unfolding definitions_def [symmetric]
    by (auto simp: renderDefinitionViews_empty z simp del: renderDefinitionViews.simps)
qed

section \<open>Unresolved references are absorbed\<close>

lemma generateExampleValue_error:
  "generateExampleValue k (Inr d) m = Inl e \<longleftrightarrow> normalizeExampleMode m = Inl e"
  by (simp add: generateExampleValue_def split: sum.splits)

text \<open>
  C4, as amended. A pointer that meets a missing key, an index that is not a number of the
  array's range, or a scalar, is not found. A node whose \<open>$ref\<close> is not found is
  synthesized, and its shape collected, as the same node without \<open>$ref\<close>: from its
  remaining sibling keywords. With no other keyword the value is null and the shape is
  empty. The failure is no error of synthesis, whose only error on a decoded document is
  an unknown mode, and no error of rendering: a reference to a definition that does not
  exist adds no edge to the definition graph, and the only error of the render view is
  that every definition is the zero value.
\<close>

theorem unresolved_reference_degrades:
  assumes "Bool node = None" and "Object node = Some object"
    and "asString (jget object ''$ref'') \<noteq> []"
    and "resolveJSONPointer (JObj (RawKeywords (doc b))) (asString (jget object ''$ref'')) = None"
  shows "buildNode (Suc n) b node = buildNode n b (objectSchema (stripReferenceKeyword object))
   \<and> collectObjectShape (Suc n) b node
       = collectObjectShape n b (objectSchema (stripReferenceKeyword object))
   \<and> (stripReferenceKeyword object = [] \<longrightarrow>
        buildNode (Suc (Suc (Suc n))) b node = Some (JNull, b)
        \<and> collectObjectShape (Suc (Suc n)) b node = Some (([], []), b))
   \<and> (resolveTokens root ts = Some (JObj typed) \<longrightarrow>
        map_of typed (decodeJSONPointerToken t) = None \<longrightarrow>
        resolveTokens root (ts @ t # ts') = None)
   \<and> (resolveTokens root ts = Some (JArr items) \<longrightarrow>
        (case Atoi (decodeJSONPointerToken t) of
           None \<Rightarrow> True
         | Some index \<Rightarrow> index < 0 \<or> int (length items) \<le> index) \<longrightarrow>
        resolveTokens root (ts @ t # ts') = None)
   \<and> (resolveTokens root ts = Some cur \<longrightarrow> isScalar cur \<longrightarrow>
        resolveTokens root (ts @ t # ts') = None)
   \<and> (generateExampleValue k (Inr (doc b)) m = Inl e \<longleftrightarrow> normalizeExampleMode m = Inl e)
   \<and> (map_of definitions (rootDefinitionName (asString (jget object ''$ref''))) = None \<longrightarrow>
        definitionEdges
          (definitionAt definitions (rootDefinitionName (asString (jget object ''$ref'')))) = [])
   \<and> (buildRenderView (doc b) = Inl e' \<longleftrightarrow>
        e' = ErrNoRenderableDefinitions
        \<and> (\<forall>name. isZero (definitionAt
              (renderDefinitions (doc b) (rootDefinitionName (Ref (doc b)))) name)))"
proof -
  have r: "resolvedObjectForReference b object
           = ((Some (stripReferenceKeyword object), None, True), b)"
    using assms(3,4) by (rule resolvedObjectForReference_not_found)
  have rel: "runRelease None x = x" for x by (simp add: runRelease_def)
  have bn: "buildNode (Suc m) b node = buildNode m b (objectSchema (stripReferenceKeyword object))"
    for m
    using assms(1,2)
    by (simp add: buildNodeStep_def r rel split: option.splits)
  have co: "collectObjectShape (Suc m) b node
       = collectObjectShape m b (objectSchema (stripReferenceKeyword object))" for m
    using assms(2)
    by (simp add: collectObjectShapeStep_def r rel split: option.splits)
  have e1: "buildNode (Suc (Suc (Suc n))) b node = Some (JNull, b)"
    if "stripReferenceKeyword object = []"
    using bn [of "Suc (Suc n)"] that by (simp only: buildNode_empty_object)
  have ce: "collectObjectShape (Suc m) b (objectSchema []) = Some (([], []), b)" for m
  proof -
    have "resolvedObjectForReference b [] = ((None, None, False), b)"
      by (simp add: resolvedObjectForReference_def jget_def)
    then show ?thesis
      by (simp add: collectObjectShapeStep_def objectSchema_def
          collectObjectShapeFromObject_def jget_def asStringSlice_def)
  qed
  have co2: "collectObjectShape (Suc (Suc m)) b node
       = collectObjectShape (Suc m) b (objectSchema (stripReferenceKeyword object))" for m
    using assms(2)
    by (simp add: collectObjectShapeStep_def r rel split: option.splits)
  have e2: "collectObjectShape (Suc (Suc n)) b node = Some (([], []), b)"
    if "stripReferenceKeyword object = []"
    using co2 [of n] that by (simp only: ce)
  have t1: "resolveTokens root (ts @ t # ts') = None"
    if "resolveTokens root ts = Some (JObj typed)"
      and "map_of typed (decodeJSONPointerToken t) = None"
    using that by (simp add: resolveTokens_append Let_def)
  have t2: "resolveTokens root (ts @ t # ts') = None"
    if "resolveTokens root ts = Some (JArr items)"
      and "case Atoi (decodeJSONPointerToken t) of
             None \<Rightarrow> True
           | Some index \<Rightarrow> index < 0 \<or> int (length items) \<le> index"
    using that by (auto simp: resolveTokens_append Let_def split: option.splits)
  have t3: "resolveTokens root (ts @ t # ts') = None"
    if "resolveTokens root ts = Some cur" and "isScalar cur"
    using that by (cases cur) (simp_all add: resolveTokens_append Let_def)
  have g: "generateExampleValue k (Inr (doc b)) m = Inl e \<longleftrightarrow> normalizeExampleMode m = Inl e"
    by (rule generateExampleValue_error)
  have d: "definitionEdges
          (definitionAt definitions (rootDefinitionName (asString (jget object ''$ref'')))) = []"
    if "map_of definitions (rootDefinitionName (asString (jget object ''$ref''))) = None"
    using that by (rule definitionEdges_missing)
  have v: "buildRenderView (doc b) = Inl e' \<longleftrightarrow>
        e' = ErrNoRenderableDefinitions
        \<and> (\<forall>name. isZero (definitionAt
              (renderDefinitions (doc b) (rootDefinitionName (Ref (doc b)))) name))"
    by (rule buildRenderView_error)
  from bn [of n] co [of n] e1 e2 t1 t2 t3 g d v show ?thesis
    by (intro conjI impI) assumption+
qed


theorem unresolved_reference_degrades_witness:
  "buildNode 4 (newBuilder danglingDoc ''all'') (objectSchema danglingNode)
     = buildNode 3 (newBuilder danglingDoc ''all'') (objectSchema [(''type'', JStr ''string'')])
   \<and> buildNode 5 (newBuilder danglingDoc ''all'') (objectSchema danglingBare)
     = Some (JNull, newBuilder danglingDoc ''all'')
   \<and> collectObjectShape 4 (newBuilder danglingDoc ''all'') (objectSchema danglingBare)
     = Some (([], []), newBuilder danglingDoc ''all'')
   \<and> resolveTokens (JObj (RawKeywords danglingDoc)) [''$defs'', ''Missing''] = None
   \<and> resolveTokens (JObj (RawKeywords danglingDoc)) [''list'', ''1'', ''x''] = None
   \<and> resolveTokens (JObj (RawKeywords danglingDoc)) [''title'', ''x''] = None
   \<and> definitionEdges (definitionAt (Defs danglingDoc) ''Missing'') = []
   \<and> generateExampleValue 6 (Inr danglingDoc) ''all''
     = Inr (Some (JObj [(''p'', JStr ''<string>''), (''q'', JNull)]))
   \<and> buildRenderView danglingDoc
     = Inr [\<lparr>DefinitionName = ''A'',
             Properties = [\<lparr>Heading = ''A.Missing'', PropertyName = ''a'', Paths = []\<rparr>],
             HasProperties = True\<rparr>]"
proof -
  let ?b = "newBuilder danglingDoc ''all''"
  let ?r = "JObj (RawKeywords danglingDoc)"
  have d: "doc ?b = danglingDoc" by (simp add: newBuilder_def)
  have a1: "Bool (objectSchema x) = None" for x by (simp add: objectSchema_def)
  have a2: "Object (objectSchema x) = Some x" for x by (simp add: objectSchema_def)
  have a3: "asString (jget danglingNode ''$ref'') \<noteq> []" by code_simp
  have "resolveJSONPointer ?r (asString (jget danglingNode ''$ref'')) = None" by code_simp
  then have a4: "resolveJSONPointer (JObj (RawKeywords (doc ?b))) (asString (jget danglingNode ''$ref'')) = None"
    by (simp only: d)
  have b3: "asString (jget danglingBare ''$ref'') \<noteq> []" by code_simp
  have "resolveJSONPointer ?r (asString (jget danglingBare ''$ref'')) = None" by code_simp
  then have b4: "resolveJSONPointer (JObj (RawKeywords (doc ?b))) (asString (jget danglingBare ''$ref'')) = None"
    by (simp only: d)
  have st: "stripReferenceKeyword danglingNode = [(''type'', JStr ''string'')]" by code_simp
  have sb: "stripReferenceKeyword danglingBare = []" by code_simp
  have nm: "rootDefinitionName (asString (jget danglingBare ''$ref'')) = ''Missing''" by code_simp
  have mm: "map_of (Defs danglingDoc) ''Missing'' = None" by code_simp
  have s: "resolveTokens ?r [''$defs''] = Some (JObj [(''A'', JObj [(''type'', JStr ''object''),
         (''properties'', JObj [(''a'', JObj [(''$ref'', JStr ''#/$defs/Missing''),
                                            (''type'', JStr ''string'')])])])])"
    by code_simp
  have k: "map_of [(''A'', JObj [(''type'', JStr ''object''),
         (''properties'', JObj [(''a'', JObj [(''$ref'', JStr ''#/$defs/Missing''),
                                            (''type'', JStr ''string'')])])])]
        (decodeJSONPointerToken ''Missing'') = None"
    by code_simp
  have l: "resolveTokens ?r [''list''] = Some (JArr [JObj []])" by code_simp
  have i: "case Atoi (decodeJSONPointerToken ''1'') of None \<Rightarrow> True
           | Some index \<Rightarrow> index < 0 \<or> int (length [JObj []]) \<le> index"
    by code_simp
  have t: "resolveTokens ?r [''title''] = Some (JStr ''t'')" by code_simp
  note u = unresolved_reference_degrades [OF a1 a2 a3 a4, where n = 3]
  note v = unresolved_reference_degrades [OF a1 a2 b3 b4, where n = 2 and root = ?r
      and definitions = "Defs danglingDoc"]
  from u have c1: "buildNode 4 ?b (objectSchema danglingNode)
      = buildNode 3 ?b (objectSchema [(''type'', JStr ''string'')])"
    by (simp add: st eval_nat_numeral)
  from v sb have c2: "buildNode 5 ?b (objectSchema danglingBare) = Some (JNull, ?b)"
    by (simp add: eval_nat_numeral)
  from v sb have c3: "collectObjectShape 4 ?b (objectSchema danglingBare) = Some (([], []), ?b)"
    by (simp add: eval_nat_numeral)
  from v [where ts = "[''$defs'']" and t = "''Missing''" and ts' = "[]"] s k
  have c4: "resolveTokens ?r [''$defs'', ''Missing''] = None" by simp
  from v [where ts = "[''list'']" and t = "''1''" and ts' = "[''x'']"] l i
  have c5: "resolveTokens ?r [''list'', ''1'', ''x''] = None" by simp
  from v [where ts = "[''title'']" and t = "''x''" and ts' = "[]"] t
  have c6: "resolveTokens ?r [''title'', ''x''] = None" by simp
  from v nm mm have c7: "definitionEdges (definitionAt (Defs danglingDoc) ''Missing'') = []"
    by simp
  have c8: "generateExampleValue 6 (Inr danglingDoc) ''all''
     = Inr (Some (JObj [(''p'', JStr ''<string>''), (''q'', JNull)]))"
    by code_simp
  have c9: "buildRenderView danglingDoc
     = Inr [\<lparr>DefinitionName = ''A'',
             Properties = [\<lparr>Heading = ''A.Missing'', PropertyName = ''a'', Paths = []\<rparr>],
             HasProperties = True\<rparr>]"
    by code_simp
  from c1 c2 c3 c4 c5 c6 c7 c8 c9 show ?thesis by (intro conjI)
qed

text \<open>
  C4 as stated fails for a node with sibling keywords: the reference is not found and the
  value is the placeholder of the sibling \<open>type\<close>, neither null nor empty.
\<close>

theorem unresolved_reference_counterexample:
  "resolveJSONPointer (JObj (RawKeywords danglingDoc)) ''#/$defs/Missing'' = None
   \<and> map_option fst (buildNode 4 (newBuilder danglingDoc ''all'') (objectSchema danglingNode))
       = Some (JStr ''<string>'')
   \<and> JStr ''<string>'' \<noteq> JNull \<and> JStr ''<string>'' \<noteq> JStr [] \<and> JStr ''<string>'' \<noteq> JArr []
   \<and> JStr ''<string>'' \<noteq> JObj []"
  by code_simp

lemma generateExampleValue_fixture:
  "generateExampleValue 20 (Inr fixtureDoc) '' Required ''
     = Inr (Some (JObj [(''name'', JStr ''demo''), (''settings'', JObj [(''enabled'', JBool True)])]))"
  by code_simp

section \<open>Cycle safety\<close>












lemma Bool_objectSchema: "Bool (objectSchema object) = None"
  by (simp add: objectSchema_def)


















end
